theory Spec2Isabelle
  imports Complex_Main "HOL-Library.Multiset"
begin

section \<open>Experience replay buffers of replay_buffer.py\<close>

text \<open>
  The module defines three classes. The specification calls \<open>ReplayBuffer\<close> the
  UniformBuffer, \<open>PrioritizedReplayBuffer\<close> the StratifiedBuffer and
  \<open>PrioritizedReplayBuffer2\<close> the WeightedStratifiedBuffer. Every method is embedded
  as a function that takes the object (a record of its fields) and, where the method
  draws random numbers, the state of the two process-wide generators, and returns what
  the method returns together with the object and the generators as the call leaves
  them. An exception is a value \<open>Inl e\<close>.
\<close>

subsection \<open>Python values\<close>

datatype error = IndexError | ValueError | TypeError | AttributeError

text \<open>
  An experience is the tuple \<open>(s, a, r, t, s2)\<close>. States and actions are opaque; a
  reward is a Python float, read as the real number it denotes.
\<close>

type_synonym ('s, 'a) experience = "'s \<times> 'a \<times> real \<times> bool \<times> 's"

definition reward :: "('s, 'a) experience \<Rightarrow> real" where
  "reward e = (case e of (s, a, r, t, s2) \<Rightarrow> r)"

text \<open>
  The five comprehensions \<open>np.array([_[k] for _ in batch])\<close> at the end of every
  batch method: one column per field, in the order of \<open>batch\<close>. Stacking is the
  identity on the lists (the shapes of states and actions are not modelled).
\<close>

type_synonym ('s, 'a) columns = "'s list \<times> 'a list \<times> real list \<times> bool list \<times> 's list"

definition columns :: "('s, 'a) experience list \<Rightarrow> ('s, 'a) columns" where
  "columns batch =
     (map (\<lambda>(s, a, r, t, s2). s) batch,
      map (\<lambda>(s, a, r, t, s2). a) batch,
      map (\<lambda>(s, a, r, t, s2). r) batch,
      map (\<lambda>(s, a, r, t, s2). t) batch,
      map (\<lambda>(s, a, r, t, s2). s2) batch)"

text \<open>\<open>int(x)\<close> on a float truncates towards zero.\<close>

definition py_int :: "real \<Rightarrow> int" where
  "py_int x = (if 0 \<le> x then \<lfloor>x\<rfloor> else \<lceil>x\<rceil>)"

subsection \<open>collections.deque\<close>

text \<open>
  A deque is its items, oldest first, and its \<open>maxlen\<close> (\<open>None\<close> for the unbounded
  \<open>deque()\<close>). \<open>append\<close> stores the item and then, when the length exceeds
  \<open>maxlen\<close>, drops the leftmost one. \<open>popleft\<close> on an empty deque raises IndexError.
  \<open>deque([], n)\<close> raises ValueError for a negative \<open>n\<close>.
\<close>

record 'a deque =
  items :: "'a list"
  maxlen :: "nat option"

definition deque_new :: "int option \<Rightarrow> error + 'a deque" where
  "deque_new m =
     (case m of
        None \<Rightarrow> Inr \<lparr>items = [], maxlen = None\<rparr>
      | Some n \<Rightarrow> if n < 0 then Inl ValueError else Inr \<lparr>items = [], maxlen = Some (nat n)\<rparr>)"

definition deque_append :: "'a deque \<Rightarrow> 'a \<Rightarrow> 'a deque" where
  "deque_append d x =
     (let xs = items d @ [x]
      in d\<lparr>items := (case maxlen d of
                        None \<Rightarrow> xs
                      | Some m \<Rightarrow> if m < length xs then tl xs else xs)\<rparr>)"

definition deque_popleft :: "'a deque \<Rightarrow> error + ('a \<times> 'a deque)" where
  "deque_popleft d =
     (case items d of
        [] \<Rightarrow> Inl IndexError
      | x # xs \<Rightarrow> Inr (x, d\<lparr>items := xs\<rparr>))"

definition deque_clear :: "'a deque \<Rightarrow> 'a deque" where
  "deque_clear d = d\<lparr>items := []\<rparr>"

definition len :: "'a deque \<Rightarrow> int" where
  "len d = int (length (items d))"

subsection \<open>The generators\<close>

text \<open>
  A generator state is the sequence of the raw outputs it will produce. The module
  \<open>random\<close> and \<open>numpy.random\<close> each keep one such state for the whole process.
  \<open>random.seed(n)\<close> replaces the first by the state the seeding routine computes
  from \<open>n\<close>; that routine is a parameter \<open>mt\<close> of the constructors below.

  \<open>random.random()\<close> returns \<open>N / 2^53\<close> for a 53-bit integer \<open>N\<close>, so
  \<open>int(random() * m)\<close> is \<open>N * m div 2^53\<close> (the rounding of the floating-point
  product is not modelled).
\<close>

type_synonym rng = "nat \<Rightarrow> nat"

record world =
  py_rng :: rng
  np_rng :: rng

definition int_random_times :: "rng \<Rightarrow> nat \<Rightarrow> nat \<times> rng" where
  "int_random_times g m = ((g 0 mod 2 ^ 53) * m div 2 ^ 53, \<lambda>i. g (Suc i))"

text \<open>
  \<open>random.sample(population, k)\<close>: ValueError unless \<open>0 \<le> k \<le> len(population)\<close>;
  otherwise the selection loop over a copy \<open>pool\<close> of the population,
  \<^verbatim>\<open>
    for i in xrange(k):
        j = _int(random() * (n-i))
        result[i] = pool[j]
        pool[j] = pool[n-i-1]
  \<close>
  The last argument of \<open>sample_loop\<close> counts the iterations that remain. (For a
  large population the library switches to drawing indices until a fresh one comes up;
  the model keeps the loop above for every size.)
\<close>

fun sample_loop :: "rng \<Rightarrow> 'a list \<Rightarrow> nat \<Rightarrow> nat \<Rightarrow> nat \<Rightarrow> 'a list \<times> rng" where
  "sample_loop g pool n i 0 = ([], g)"
| "sample_loop g pool n i (Suc todo) =
     (let (j, g') = int_random_times g (n - i);
          (result, g'') = sample_loop g' (pool[j := pool ! (n - i - 1)]) n (Suc i) todo
      in (pool ! j # result, g''))"

definition random_sample :: "rng \<Rightarrow> 'a list \<Rightarrow> int \<Rightarrow> error + ('a list \<times> rng)" where
  "random_sample g population k =
     (let n = length population
      in if \<not> (0 \<le> k \<and> k \<le> int n) then Inl ValueError
         else Inr (sample_loop g population n 0 (nat k)))"

subsection \<open>ReplayBuffer\<close>

record ('s, 'a) ReplayBuffer =
  buffer_size :: int
  count :: int
  buffer :: "('s, 'a) experience deque"

definition ReplayBuffer_init ::
  "(int \<Rightarrow> rng) \<Rightarrow> int \<Rightarrow> int \<Rightarrow> world \<Rightarrow> ('s, 'a) ReplayBuffer \<times> world" where
  "ReplayBuffer_init mt capacity random_seed w =
     (\<lparr>buffer_size = capacity, count = 0, buffer = \<lparr>items = [], maxlen = None\<rparr>\<rparr>,
      w\<lparr>py_rng := mt random_seed\<rparr>)"

definition ReplayBuffer_add ::
  "('s, 'a) ReplayBuffer \<Rightarrow> ('s, 'a) experience \<Rightarrow> error + ('s, 'a) ReplayBuffer" where
  "ReplayBuffer_add self experience =
     (if count self < buffer_size self
      then Inr (self\<lparr>buffer := deque_append (buffer self) experience,
                     count := count self + 1\<rparr>)
      else (case deque_popleft (buffer self) of
              Inl e \<Rightarrow> Inl e
            | Inr (old, d) \<Rightarrow> Inr (self\<lparr>buffer := deque_append d experience\<rparr>)))"

definition ReplayBuffer_size :: "('s, 'a) ReplayBuffer \<Rightarrow> int" where
  "ReplayBuffer_size self = count self"

definition ReplayBuffer_sample_batch ::
  "('s, 'a) ReplayBuffer \<Rightarrow> world \<Rightarrow> int
     \<Rightarrow> (error + ('s, 'a) columns) \<times> ('s, 'a) ReplayBuffer \<times> world" where
  "ReplayBuffer_sample_batch self w batch_size =
     (case (if count self < batch_size
            then random_sample (py_rng w) (items (buffer self)) (count self)
            else random_sample (py_rng w) (items (buffer self)) batch_size) of
        Inl e \<Rightarrow> (Inl e, self, w)
      | Inr (batch, g) \<Rightarrow> (Inr (columns batch), self, w\<lparr>py_rng := g\<rparr>))"

text \<open>
  \<open>last_n_batch\<close>: with \<open>count < batch_size\<close> the batch is the whole deque; otherwise
  the method evaluates \<open>self.buffer[-batch_size:]\<close>, and a deque does not accept a
  slice: TypeError.
\<close>

definition ReplayBuffer_last_n_batch ::
  "('s, 'a) ReplayBuffer \<Rightarrow> int \<Rightarrow> (error + ('s, 'a) columns) \<times> ('s, 'a) ReplayBuffer" where
  "ReplayBuffer_last_n_batch self batch_size =
     (if count self < batch_size
      then (Inr (columns (items (buffer self))), self)
      else (Inl TypeError, self))"

text \<open>
  \<open>clear\<close> starts with \<open>self.deque.clear()\<close>. The object has no attribute
  \<open>deque\<close> (the constructor sets \<open>buffer_size\<close>, \<open>count\<close> and \<open>buffer\<close>), so
  the lookup raises AttributeError and \<open>self.count = 0\<close> is not reached.
\<close>

definition ReplayBuffer_clear ::
  "('s, 'a) ReplayBuffer \<Rightarrow> (error + unit) \<times> ('s, 'a) ReplayBuffer" where
  "ReplayBuffer_clear self = (Inl AttributeError, self)"

subsection \<open>PrioritizedReplayBuffer\<close>

text \<open>
  Both queues are \<open>deque([], buffer_size)\<close>; a negative \<open>buffer_size\<close> makes the
  first of them raise ValueError, before the generator is seeded.
\<close>

record ('s, 'a) PrioritizedReplayBuffer =
  pbuffer_size :: int
  buffer_pos :: "('s, 'a) experience deque"
  buffer_neg :: "('s, 'a) experience deque"

definition PrioritizedReplayBuffer_init ::
  "(int \<Rightarrow> rng) \<Rightarrow> int \<Rightarrow> int \<Rightarrow> world
     \<Rightarrow> (error + ('s, 'a) PrioritizedReplayBuffer) \<times> world" where
  "PrioritizedReplayBuffer_init mt capacity random_seed w =
     (case deque_new (Some capacity) of
        Inl e \<Rightarrow> (Inl e, w)
      | Inr d \<Rightarrow> (Inr \<lparr>pbuffer_size = capacity, buffer_pos = d, buffer_neg = d\<rparr>,
                  w\<lparr>py_rng := mt random_seed\<rparr>))"

definition PrioritizedReplayBuffer_add ::
  "('s, 'a) PrioritizedReplayBuffer \<Rightarrow> ('s, 'a) experience
     \<Rightarrow> ('s, 'a) PrioritizedReplayBuffer" where
  "PrioritizedReplayBuffer_add self experience =
     (if reward experience \<le> 0
      then self\<lparr>buffer_neg := deque_append (buffer_neg self) experience\<rparr>
      else self\<lparr>buffer_pos := deque_append (buffer_pos self) experience\<rparr>)"

definition PrioritizedReplayBuffer_size :: "('s, 'a) PrioritizedReplayBuffer \<Rightarrow> int" where
  "PrioritizedReplayBuffer_size self = len (buffer_pos self) + len (buffer_neg self)"

text \<open>
  The two sample sizes, as both sampling methods compute them (\<open>p_ratio\<close>, a Python
  float, is read as a real number and the product is exact).
\<close>

definition pos_sample_size :: "int \<Rightarrow> real \<Rightarrow> int \<Rightarrow> int" where
  "pos_sample_size batch_size p_ratio num_pos =
     (let n = py_int (of_int batch_size * p_ratio)
      in if n > num_pos then num_pos else n)"

definition neg_sample_size :: "int \<Rightarrow> int \<Rightarrow> int \<Rightarrow> int" where
  "neg_sample_size batch_size pos_size num_neg =
     (let n = batch_size - pos_size
      in if n > num_neg then num_neg else n)"

definition PrioritizedReplayBuffer_sample_batch ::
  "('s, 'a) PrioritizedReplayBuffer \<Rightarrow> world \<Rightarrow> int \<Rightarrow> real
     \<Rightarrow> (error + ('s, 'a) columns) \<times> ('s, 'a) PrioritizedReplayBuffer \<times> world" where
  "PrioritizedReplayBuffer_sample_batch self w batch_size p_ratio =
     (let pos_size = pos_sample_size batch_size p_ratio (len (buffer_pos self));
          neg_size = neg_sample_size batch_size pos_size (len (buffer_neg self))
      in case random_sample (py_rng w) (items (buffer_pos self)) pos_size of
           Inl e \<Rightarrow> (Inl e, self, w)
         | Inr (pos_batch, g) \<Rightarrow>
             (case random_sample g (items (buffer_neg self)) neg_size of
                Inl e \<Rightarrow> (Inl e, self, w\<lparr>py_rng := g\<rparr>)
              | Inr (neg_batch, g') \<Rightarrow>
                  (Inr (columns (pos_batch @ neg_batch)), self, w\<lparr>py_rng := g'\<rparr>)))"

definition PrioritizedReplayBuffer_clear ::
  "('s, 'a) PrioritizedReplayBuffer \<Rightarrow> ('s, 'a) PrioritizedReplayBuffer" where
  "PrioritizedReplayBuffer_clear self =
     self\<lparr>buffer_pos := deque_clear (buffer_pos self),
          buffer_neg := deque_clear (buffer_neg self)\<rparr>"

subsection \<open>softmax\<close>

text \<open>
  A double is a real number, an infinity or NaN. Rounding inside the finite range
  (underflow to zero included) is not modelled; overflow is: a result whose magnitude reaches \<open>2^1024 - 2^970\<close> (half
  a unit in the last place above the largest double) is an infinity. Signed zeros are
  not told apart.
\<close>

datatype float64 = Fin real | PInf | NInf | NaN

definition overflow_threshold :: real where
  "overflow_threshold = 2 ^ 1024 - 2 ^ 970"

definition fl_round :: "real \<Rightarrow> float64" where
  "fl_round x =
     (if overflow_threshold \<le> x then PInf
      else if x \<le> - overflow_threshold then NInf
      else Fin x)"

fun np_exp :: "float64 \<Rightarrow> float64" where
  "np_exp (Fin x) = fl_round (exp x)"
| "np_exp PInf = PInf"
| "np_exp NInf = Fin 0"
| "np_exp NaN = NaN"

fun np_add :: "float64 \<Rightarrow> float64 \<Rightarrow> float64" where
  "np_add (Fin x) (Fin y) = fl_round (x + y)"
| "np_add NaN y = NaN"
| "np_add x NaN = NaN"
| "np_add PInf NInf = NaN"
| "np_add NInf PInf = NaN"
| "np_add PInf y = PInf"
| "np_add x PInf = PInf"
| "np_add NInf y = NInf"
| "np_add x NInf = NInf"

fun np_divide :: "float64 \<Rightarrow> float64 \<Rightarrow> float64" where
  "np_divide (Fin x) (Fin y) =
     (if y = 0 then (if x = 0 then NaN else if 0 < x then PInf else NInf)
      else fl_round (x / y))"
| "np_divide NaN y = NaN"
| "np_divide x NaN = NaN"
| "np_divide (Fin x) y = Fin 0"
| "np_divide PInf (Fin y) = (if 0 \<le> y then PInf else NInf)"
| "np_divide NInf (Fin y) = (if 0 \<le> y then NInf else PInf)"
| "np_divide PInf PInf = NaN"
| "np_divide PInf NInf = NaN"
| "np_divide NInf PInf = NaN"
| "np_divide NInf NInf = NaN"

definition np_sum :: "float64 list \<Rightarrow> float64" where
  "np_sum xs = foldl np_add (Fin 0) xs"

text \<open>
  \<^verbatim>\<open>
  def softmax(y):
      e = np.exp(np.array(y))
      return (e/np.sum(e))
  \<close>
\<close>

definition softmax :: "float64 list \<Rightarrow> float64 list" where
  "softmax y = (let e = map np_exp y in map (\<lambda>x. np_divide x (np_sum e)) e)"

text \<open>
  The weights as the specification words them: the largest reward is subtracted
  before exponentiating, \<open>w_i = exp(r_i - max_r) / \<Sum>_j exp(r_j - max_r)\<close>.
\<close>

definition stabilized_softmax :: "real list \<Rightarrow> real list" where
  "stabilized_softmax rs =
     map (\<lambda>r. exp (r - Max (set rs)) / (\<Sum>x\<leftarrow>rs. exp (x - Max (set rs)))) rs"

subsection \<open>PrioritizedReplayBuffer2\<close>

text \<open>
  The class has the fields and the constructor of \<open>PrioritizedReplayBuffer\<close>; it
  differs in the threshold of \<open>add\<close> and in \<open>sample_batch\<close>, which draws its indices
  with \<open>np.random.choice\<close>. That routine belongs to numpy and is a parameter here,
  once for the call without weights (\<open>uchoice a size g\<close>) and once for the call with
  weights (\<open>wchoice a size p g\<close>); \<open>g\<close> is the state of numpy's generator. Either
  returns an exception or the chosen indices and the next state. Indexing an array
  with an index that is out of range raises IndexError.
\<close>

type_synonym ('s, 'a) PrioritizedReplayBuffer2 = "('s, 'a) PrioritizedReplayBuffer"

definition PrioritizedReplayBuffer2_init ::
  "(int \<Rightarrow> rng) \<Rightarrow> int \<Rightarrow> int \<Rightarrow> world
     \<Rightarrow> (error + ('s, 'a) PrioritizedReplayBuffer2) \<times> world" where
  "PrioritizedReplayBuffer2_init mt capacity random_seed w =
     (case deque_new (Some capacity) of
        Inl e \<Rightarrow> (Inl e, w)
      | Inr d \<Rightarrow> (Inr \<lparr>pbuffer_size = capacity, buffer_pos = d, buffer_neg = d\<rparr>,
                  w\<lparr>py_rng := mt random_seed\<rparr>))"

definition PrioritizedReplayBuffer2_add ::
  "('s, 'a) PrioritizedReplayBuffer2 \<Rightarrow> ('s, 'a) experience
     \<Rightarrow> ('s, 'a) PrioritizedReplayBuffer2" where
  "PrioritizedReplayBuffer2_add self experience =
     (if reward experience \<le> 0.5
      then self\<lparr>buffer_neg := deque_append (buffer_neg self) experience\<rparr>
      else self\<lparr>buffer_pos := deque_append (buffer_pos self) experience\<rparr>)"

definition PrioritizedReplayBuffer2_size :: "('s, 'a) PrioritizedReplayBuffer2 \<Rightarrow> int" where
  "PrioritizedReplayBuffer2_size self = len (buffer_pos self) + len (buffer_neg self)"

definition take_indices :: "'a list \<Rightarrow> nat list \<Rightarrow> error + 'a list" where
  "take_indices xs idx =
     (if list_all (\<lambda>i. i < length xs) idx then Inr (map (\<lambda>i. xs ! i) idx)
      else Inl IndexError)"

text \<open>Lines 156 and 157: the weights handed to the weighted choice.\<close>

definition pr_rewards :: "('s, 'a) PrioritizedReplayBuffer2 \<Rightarrow> float64 list" where
  "pr_rewards self = softmax (map (\<lambda>x. Fin (reward x)) (items (buffer_pos self)))"

type_synonym uchoice = "int \<Rightarrow> int \<Rightarrow> rng \<Rightarrow> error + (nat list \<times> rng)"
type_synonym wchoice = "int \<Rightarrow> int \<Rightarrow> float64 list \<Rightarrow> rng \<Rightarrow> error + (nat list \<times> rng)"

definition draw_pos ::
  "wchoice \<Rightarrow> ('s, 'a) PrioritizedReplayBuffer2 \<Rightarrow> int \<Rightarrow> rng
     \<Rightarrow> error + (('s, 'a) experience list \<times> rng)" where
  "draw_pos wchoice self pos_size g =
     (if pos_size \<noteq> 0
      then (case wchoice (len (buffer_pos self)) pos_size (pr_rewards self) g of
              Inl e \<Rightarrow> Inl e
            | Inr (pos_batch_idx, g') \<Rightarrow>
                (case take_indices (items (buffer_pos self)) pos_batch_idx of
                   Inl e \<Rightarrow> Inl e
                 | Inr pos_batch \<Rightarrow> Inr (pos_batch, g')))
      else Inr ([], g))"

definition draw_neg ::
  "uchoice \<Rightarrow> ('s, 'a) PrioritizedReplayBuffer2 \<Rightarrow> int \<Rightarrow> rng
     \<Rightarrow> error + (('s, 'a) experience list \<times> rng)" where
  "draw_neg uchoice self neg_size g =
     (case uchoice (len (buffer_neg self)) neg_size g of
        Inl e \<Rightarrow> Inl e
      | Inr (neg_batch_idx, g') \<Rightarrow>
          (case take_indices (items (buffer_neg self)) neg_batch_idx of
             Inl e \<Rightarrow> Inl e
           | Inr neg_batch \<Rightarrow> Inr (neg_batch, g')))"

definition PrioritizedReplayBuffer2_sample_batch ::
  "uchoice \<Rightarrow> wchoice \<Rightarrow> ('s, 'a) PrioritizedReplayBuffer2 \<Rightarrow> world \<Rightarrow> int \<Rightarrow> real
     \<Rightarrow> (error + ('s, 'a) columns) \<times> ('s, 'a) PrioritizedReplayBuffer2 \<times> world" where
  "PrioritizedReplayBuffer2_sample_batch uchoice wchoice self w batch_size p_ratio =
     (let pos_size = pos_sample_size batch_size p_ratio (len (buffer_pos self));
          neg_size = neg_sample_size batch_size pos_size (len (buffer_neg self))
      in case draw_pos wchoice self pos_size (np_rng w) of
           Inl e \<Rightarrow> (Inl e, self, w)
         | Inr (pos_batch, g) \<Rightarrow>
             (case draw_neg uchoice self neg_size g of
                Inl e \<Rightarrow> (Inl e, self, w\<lparr>np_rng := g\<rparr>)
              | Inr (neg_batch, g') \<Rightarrow>
                  (Inr (columns (if pos_size \<noteq> 0 then pos_batch @ neg_batch else neg_batch)),
                   self, w\<lparr>np_rng := g'\<rparr>)))"

definition PrioritizedReplayBuffer2_clear ::
  "('s, 'a) PrioritizedReplayBuffer2 \<Rightarrow> ('s, 'a) PrioritizedReplayBuffer2" where
  "PrioritizedReplayBuffer2_clear self =
     self\<lparr>buffer_pos := deque_clear (buffer_pos self),
          buffer_neg := deque_clear (buffer_neg self)\<rparr>"

text \<open>
  For evaluating a call, a model of the choice without weights on \<open>0 < a\<close> and
  \<open>0 \<le> k \<le> a\<close>: numpy shuffles \<open>arange(a)\<close> from the last position down,
  swapping position \<open>i\<close> with a position drawn from \<open>0..i\<close>, and returns the first
  \<open>k\<close> entries. The draw is the raw output reduced modulo \<open>i + 1\<close> (numpy masks
  and redraws; for \<open>i = 1\<close> both are the low bit). Outside that range the model
  answers ValueError; numpy's answer there differs between its versions, and nothing
  below depends on it.
\<close>

fun shuffle :: "nat list \<Rightarrow> nat \<Rightarrow> rng \<Rightarrow> nat list \<times> rng" where
  "shuffle x 0 g = (x, g)"
| "shuffle x (Suc i) g =
     (let j = g 0 mod (Suc i + 1)
      in shuffle (x[Suc i := x ! j, j := x ! Suc i]) i (\<lambda>k. g (Suc k)))"

definition permutation_choice :: uchoice where
  "permutation_choice a k g =
     (if a \<le> 0 \<or> k < 0 \<or> a < k then Inl ValueError
      else (let (x, g') = shuffle [0..<nat a] (nat a - 1) g
            in Inr (take (nat k) x, g')))"

subsection \<open>Sequences of calls and invariants\<close>

text \<open>
  A sequence of \<open>add\<close> calls on a \<open>ReplayBuffer\<close>; an exception ends it. (\<open>add\<close>
  of the two other classes raises nothing, and a sequence of calls is a \<open>foldl\<close>.)
\<close>

fun ReplayBuffer_add_all ::
  "('s, 'a) ReplayBuffer \<Rightarrow> ('s, 'a) experience list \<Rightarrow> error + ('s, 'a) ReplayBuffer" where
  "ReplayBuffer_add_all self [] = Inr self"
| "ReplayBuffer_add_all self (x # xs) =
     (case ReplayBuffer_add self x of
        Inl e \<Rightarrow> Inl e
      | Inr self' \<Rightarrow> ReplayBuffer_add_all self' xs)"

text \<open>
  What the constructor establishes and \<open>add\<close> keeps: \<open>count\<close> is the length of
  the deque, which is unbounded.
\<close>

definition ReplayBuffer_inv :: "('s, 'a) ReplayBuffer \<Rightarrow> bool" where
  "ReplayBuffer_inv b \<longleftrightarrow>
     count b = int (length (items (buffer b))) \<and> maxlen (buffer b) = None"

text \<open>Both queues have the bound \<open>m\<close> and respect it.\<close>

definition queues_bounded :: "('s, 'a) PrioritizedReplayBuffer \<Rightarrow> nat \<Rightarrow> bool" where
  "queues_bounded b m \<longleftrightarrow>
     maxlen (buffer_pos b) = Some m \<and> length (items (buffer_pos b)) \<le> m \<and>
     maxlen (buffer_neg b) = Some m \<and> length (items (buffer_neg b)) \<le> m"

subsection \<open>Describing a sample\<close>

text \<open>
  The positions \<open>random.sample\<close> selects: the loop run on the pool of the positions
  \<open>0, \<dots>, n - 1\<close>.
\<close>

definition sample_indices :: "rng \<Rightarrow> nat \<Rightarrow> nat \<Rightarrow> nat list" where
  "sample_indices g n k = fst (sample_loop g [0..<n] n 0 k)"

text \<open>
  The loop with its draws made explicit. \<open>draws g m k\<close> are the \<open>k\<close> values of
  \<open>j\<close> the generator yields when \<open>m\<close> positions are not yet selected,
  \<open>select js pool m\<close> is the result of the loop with the values \<open>js\<close>, and
  \<open>draws_ok js m\<close> says that each value lies in the range it is drawn from
  (\<open>m\<close>, then \<open>m - 1\<close>, and so on).
\<close>

fun select :: "nat list \<Rightarrow> 'a list \<Rightarrow> nat \<Rightarrow> 'a list" where
  "select [] pool m = []"
| "select (j # js) pool m = pool ! j # select js (pool[j := pool ! (m - 1)]) (m - 1)"

fun draws_ok :: "nat list \<Rightarrow> nat \<Rightarrow> bool" where
  "draws_ok [] m = True"
| "draws_ok (j # js) m = (j < m \<and> draws_ok js (m - 1))"

fun draws :: "rng \<Rightarrow> nat \<Rightarrow> nat \<Rightarrow> nat list" where
  "draws g m 0 = []"
| "draws g m (Suc todo) =
     (let (j, g') = int_random_times g m in j # draws g' (m - 1) todo)"

text \<open>
  The buffers the class produces: the constructor's, and the result of an \<open>add\<close> that
  returns (the other methods leave the fields as they are).
\<close>

inductive ReplayBuffer_reachable :: "('s, 'a) ReplayBuffer \<Rightarrow> bool" where
  constructed: "ReplayBuffer_reachable (fst (ReplayBuffer_init mt capacity random_seed w))"
| added: "ReplayBuffer_reachable self \<Longrightarrow> ReplayBuffer_add self experience = Inr self'
            \<Longrightarrow> ReplayBuffer_reachable self'"

definition column_lengths :: "('s, 'a) columns \<Rightarrow> nat list" where
  "column_lengths c =
     (case c of (s_batch, a_batch, r_batch, t_batch, s2_batch) \<Rightarrow>
        [length s_batch, length a_batch, length r_batch, length t_batch, length s2_batch])"

section \<open>Properties\<close>

subsection \<open>Additions to a ReplayBuffer\<close>

lemma ReplayBuffer_add_step:
  assumes "ReplayBuffer_inv b" and "0 < buffer_size b" and "count b \<le> buffer_size b"
  shows "\<exists>b'. ReplayBuffer_add b x = Inr b'
     \<and> ReplayBuffer_inv b' \<and> buffer_size b' = buffer_size b \<and> count b' \<le> buffer_size b'
     \<and> items (buffer b') =
         drop (Suc (length (items (buffer b))) - nat (buffer_size b)) (items (buffer b) @ [x])"
proof (cases "count b < buffer_size b")
  case True
  with assms show ?thesis
    by (simp add: ReplayBuffer_add_def ReplayBuffer_inv_def deque_append_def)
next
  case False
  with assms have full: "int (length (items (buffer b))) = buffer_size b"
    by (simp add: ReplayBuffer_inv_def)
  with assms obtain y ys where ys: "items (buffer b) = y # ys"
    by (cases "items (buffer b)") auto
  have "Suc (length (items (buffer b))) - nat (buffer_size b) = 1"
    using full by linarith
  with False assms ys show ?thesis
    by (simp add: ReplayBuffer_add_def ReplayBuffer_inv_def deque_append_def deque_popleft_def)
qed

lemma ReplayBuffer_add_all_items:
  assumes "ReplayBuffer_inv b" and "0 < buffer_size b" and "count b \<le> buffer_size b"
  shows "\<exists>b'. ReplayBuffer_add_all b xs = Inr b'
     \<and> ReplayBuffer_inv b' \<and> buffer_size b' = buffer_size b \<and> count b' \<le> buffer_size b'
     \<and> items (buffer b') =
         drop (length (items (buffer b)) + length xs - nat (buffer_size b)) (items (buffer b) @ xs)"
  using assms
proof (induction xs arbitrary: b)
  case Nil
  then have "length (items (buffer b)) - nat (buffer_size b) = 0"
    by (simp add: ReplayBuffer_inv_def)
  with Nil show ?case by simp
next
  case (Cons x xs)
  from ReplayBuffer_add_step [OF Cons.prems, of x] obtain b1 where
    b1: "ReplayBuffer_add b x = Inr b1" "ReplayBuffer_inv b1" "buffer_size b1 = buffer_size b"
      "count b1 \<le> buffer_size b1"
      "items (buffer b1) =
         drop (Suc (length (items (buffer b))) - nat (buffer_size b)) (items (buffer b) @ [x])"
    by blast
  from Cons.IH [OF b1(2) _ b1(4)] b1(3) Cons.prems(2) obtain b' where
    b': "ReplayBuffer_add_all b1 xs = Inr b'" "ReplayBuffer_inv b'"
      "buffer_size b' = buffer_size b1" "count b' \<le> buffer_size b'"
      "items (buffer b') =
         drop (length (items (buffer b1)) + length xs - nat (buffer_size b1)) (items (buffer b1) @ xs)"
    by auto
  have len: "length (items (buffer b)) \<le> nat (buffer_size b)"
    using Cons.prems by (simp add: ReplayBuffer_inv_def)
  let ?n = "length (items (buffer b))" and ?c = "nat (buffer_size b)"
  have "items (buffer b') =
      drop (?n + length (x # xs) - ?c) (items (buffer b) @ x # xs)"
  proof (cases "?n < ?c")
    case True
    then have "items (buffer b1) = items (buffer b) @ [x]"
      using b1(5) by simp
    then show ?thesis using b'(5) b1(3) by simp
  next
    case False
    with len have eq: "?n = ?c" by simp
    then have i1: "items (buffer b1) = tl (items (buffer b)) @ [x]"
      using b1(5) Cons.prems(2) by (cases "items (buffer b)") auto
    have pos: "0 < ?n" using eq Cons.prems(2) by simp
    then obtain y ys where ys: "items (buffer b) = y # ys"
      by (cases "items (buffer b)") auto
    have l1: "length (items (buffer b1)) = ?c"
      using i1 eq ys by simp
    have "items (buffer b') = drop (length xs) (items (buffer b1) @ xs)"
      using b'(5) b1(3) l1 by simp
    also have "\<dots> = drop (Suc (length xs)) (items (buffer b) @ x # xs)"
      using i1 ys by simp
    also have "Suc (length xs) = ?n + length (x # xs) - ?c"
      using eq by simp
    finally show ?thesis .
  qed
  with b1 b' show ?case by simp
qed

lemma ReplayBuffer_init_inv:
  "ReplayBuffer_inv (fst (ReplayBuffer_init mt capacity seed w))"
  "buffer_size (fst (ReplayBuffer_init mt capacity seed w)) = capacity"
  "count (fst (ReplayBuffer_init mt capacity seed w)) = 0"
  "items (buffer (fst (ReplayBuffer_init mt capacity seed w))) = []"
  by (simp_all add: ReplayBuffer_init_def ReplayBuffer_inv_def)

lemma ReplayBuffer_fill:
  assumes "0 < capacity"
  shows "\<exists>b. ReplayBuffer_add_all (fst (ReplayBuffer_init mt capacity seed w)) xs = Inr b
     \<and> ReplayBuffer_inv b \<and> buffer_size b = capacity \<and> count b \<le> capacity
     \<and> items (buffer b) = drop (length xs - nat capacity) xs"
proof -
  let ?b0 = "fst (ReplayBuffer_init mt capacity seed w) :: ('a, 'b) ReplayBuffer"
  have "ReplayBuffer_inv ?b0" "0 < buffer_size ?b0" "count ?b0 \<le> buffer_size ?b0"
    using assms by (simp_all add: ReplayBuffer_init_inv)
  from ReplayBuffer_add_all_items [OF this, of xs] show ?thesis
    by (auto simp: ReplayBuffer_init_inv)
qed

subsection \<open>Additions to the two-queue buffers\<close>

lemma deque_append_bounded:
  assumes "maxlen d = Some m" and "length (items d) \<le> m"
  shows "maxlen (deque_append d x) = Some m \<and> length (items (deque_append d x)) \<le> m"
  using assms by (auto simp: deque_append_def Let_def)

lemma deque_append_room:
  assumes "maxlen d = Some m" and "length (items d) < m"
  shows "items (deque_append d x) = items d @ [x]"
  using assms by (simp add: deque_append_def)

lemma PrioritizedReplayBuffer_add_bounded:
  "queues_bounded b m \<Longrightarrow> queues_bounded (PrioritizedReplayBuffer_add b x) m"
  using deque_append_bounded [of "buffer_pos b" m x] deque_append_bounded [of "buffer_neg b" m x]
  by (simp add: queues_bounded_def PrioritizedReplayBuffer_add_def)

lemma PrioritizedReplayBuffer2_add_bounded:
  "queues_bounded b m \<Longrightarrow> queues_bounded (PrioritizedReplayBuffer2_add b x) m"
  using deque_append_bounded [of "buffer_pos b" m x] deque_append_bounded [of "buffer_neg b" m x]
  by (simp add: queues_bounded_def PrioritizedReplayBuffer2_add_def)

lemma foldl_add_bounded:
  "queues_bounded b m \<Longrightarrow> queues_bounded (foldl PrioritizedReplayBuffer_add b xs) m"
  by (induction xs arbitrary: b) (simp_all add: PrioritizedReplayBuffer_add_bounded)

lemma foldl_add2_bounded:
  "queues_bounded b m \<Longrightarrow> queues_bounded (foldl PrioritizedReplayBuffer2_add b xs) m"
  by (induction xs arbitrary: b) (simp_all add: PrioritizedReplayBuffer2_add_bounded)

lemma fill_pos:
  assumes "maxlen (buffer_pos b) = Some m" and "length (items (buffer_pos b)) + k \<le> m"
    and "0 < reward e"
  shows "items (buffer_pos (foldl PrioritizedReplayBuffer_add b (replicate k e)))
           = items (buffer_pos b) @ replicate k e
       \<and> buffer_neg (foldl PrioritizedReplayBuffer_add b (replicate k e)) = buffer_neg b
       \<and> maxlen (buffer_pos (foldl PrioritizedReplayBuffer_add b (replicate k e))) = Some m"
  using assms
proof (induction k arbitrary: b)
  case 0
  then show ?case by simp
next
  case (Suc k)
  let ?b1 = "PrioritizedReplayBuffer_add b e"
  have a: "items (buffer_pos ?b1) = items (buffer_pos b) @ [e]"
    "buffer_neg ?b1 = buffer_neg b" "maxlen (buffer_pos ?b1) = Some m"
    using Suc.prems deque_append_room [of "buffer_pos b" m e]
    by (simp_all add: PrioritizedReplayBuffer_add_def deque_append_def)
  have "length (items (buffer_pos ?b1)) + k \<le> m"
    using a Suc.prems by simp
  from Suc.IH [OF a(3) this Suc.prems(3)] a show ?case
    by (simp add: replicate_app_Cons_same)
qed

lemma fill_neg:
  assumes "maxlen (buffer_neg b) = Some m" and "length (items (buffer_neg b)) + k \<le> m"
    and "reward e \<le> 0"
  shows "items (buffer_neg (foldl PrioritizedReplayBuffer_add b (replicate k e)))
           = items (buffer_neg b) @ replicate k e
       \<and> buffer_pos (foldl PrioritizedReplayBuffer_add b (replicate k e)) = buffer_pos b"
  using assms
proof (induction k arbitrary: b)
  case 0
  then show ?case by simp
next
  case (Suc k)
  let ?b1 = "PrioritizedReplayBuffer_add b e"
  have a: "items (buffer_neg ?b1) = items (buffer_neg b) @ [e]"
    "buffer_pos ?b1 = buffer_pos b" "maxlen (buffer_neg ?b1) = Some m"
    using Suc.prems deque_append_room [of "buffer_neg b" m e]
    by (simp_all add: PrioritizedReplayBuffer_add_def deque_append_def)
  have "length (items (buffer_neg ?b1)) + k \<le> m"
    using a Suc.prems by simp
  from Suc.IH [OF a(3) this Suc.prems(3)] a show ?case
    by (simp add: replicate_app_Cons_same)
qed


lemma PrioritizedReplayBuffer_init_bounded:
  assumes "0 \<le> capacity"
  shows "\<exists>b. fst (PrioritizedReplayBuffer_init mt capacity seed w) = Inr b
     \<and> queues_bounded b (nat capacity) \<and> items (buffer_pos b) = [] \<and> items (buffer_neg b) = []"
  using assms
  by (simp add: PrioritizedReplayBuffer_init_def deque_new_def queues_bounded_def)

lemma PrioritizedReplayBuffer2_init_eq:
  "PrioritizedReplayBuffer2_init = PrioritizedReplayBuffer_init"
  by (intro ext) (simp add: PrioritizedReplayBuffer2_init_def PrioritizedReplayBuffer_init_def)

lemma two_queues_full:
  assumes "queues_bounded b m" and "items (buffer_pos b) = []" and "items (buffer_neg b) = []"
  shows "\<exists>ys. PrioritizedReplayBuffer_size (foldl PrioritizedReplayBuffer_add b ys) = 2 * int m"
proof -
  obtain s :: 'a and a :: 'b where True by simp
  let ?p = "(s, a, 1::real, False, s)" and ?n = "(s, a, 0::real, False, s)"
  let ?b1 = "foldl PrioritizedReplayBuffer_add b (replicate m ?p)"
  have p: "items (buffer_pos ?b1) = replicate m ?p" "buffer_neg ?b1 = buffer_neg b"
    using fill_pos [of b m m ?p] assms by (simp_all add: queues_bounded_def reward_def)
  have n: "items (buffer_neg (foldl PrioritizedReplayBuffer_add ?b1 (replicate m ?n)))
              = replicate m ?n"
    "buffer_pos (foldl PrioritizedReplayBuffer_add ?b1 (replicate m ?n)) = buffer_pos ?b1"
    using fill_neg [of ?b1 m m ?n] assms p by (simp_all add: queues_bounded_def reward_def)
  have "PrioritizedReplayBuffer_size
          (foldl PrioritizedReplayBuffer_add b (replicate m ?p @ replicate m ?n)) = 2 * int m"
    using p n by (simp add: PrioritizedReplayBuffer_size_def len_def)
  then show ?thesis by blast
qed

lemma fill_pos2:
  assumes "maxlen (buffer_pos b) = Some m" and "length (items (buffer_pos b)) + k \<le> m"
    and "0.5 < reward e"
  shows "items (buffer_pos (foldl PrioritizedReplayBuffer2_add b (replicate k e)))
           = items (buffer_pos b) @ replicate k e
       \<and> buffer_neg (foldl PrioritizedReplayBuffer2_add b (replicate k e)) = buffer_neg b
       \<and> maxlen (buffer_pos (foldl PrioritizedReplayBuffer2_add b (replicate k e))) = Some m"
  using assms
proof (induction k arbitrary: b)
  case 0
  then show ?case by simp
next
  case (Suc k)
  let ?b1 = "PrioritizedReplayBuffer2_add b e"
  have a: "items (buffer_pos ?b1) = items (buffer_pos b) @ [e]"
    "buffer_neg ?b1 = buffer_neg b" "maxlen (buffer_pos ?b1) = Some m"
    using Suc.prems deque_append_room [of "buffer_pos b" m e]
    by (simp_all add: PrioritizedReplayBuffer2_add_def deque_append_def)
  have "length (items (buffer_pos ?b1)) + k \<le> m"
    using a Suc.prems by simp
  from Suc.IH [OF a(3) this Suc.prems(3)] a show ?case
    by (simp add: replicate_app_Cons_same)
qed

lemma fill_neg2:
  assumes "maxlen (buffer_neg b) = Some m" and "length (items (buffer_neg b)) + k \<le> m"
    and "reward e \<le> 0.5"
  shows "items (buffer_neg (foldl PrioritizedReplayBuffer2_add b (replicate k e)))
           = items (buffer_neg b) @ replicate k e
       \<and> buffer_pos (foldl PrioritizedReplayBuffer2_add b (replicate k e)) = buffer_pos b"
  using assms
proof (induction k arbitrary: b)
  case 0
  then show ?case by simp
next
  case (Suc k)
  let ?b1 = "PrioritizedReplayBuffer2_add b e"
  have a: "items (buffer_neg ?b1) = items (buffer_neg b) @ [e]"
    "buffer_pos ?b1 = buffer_pos b" "maxlen (buffer_neg ?b1) = Some m"
    using Suc.prems deque_append_room [of "buffer_neg b" m e]
    by (simp_all add: PrioritizedReplayBuffer2_add_def deque_append_def)
  have "length (items (buffer_neg ?b1)) + k \<le> m"
    using a Suc.prems by simp
  from Suc.IH [OF a(3) this Suc.prems(3)] a show ?case
    by (simp add: replicate_app_Cons_same)
qed


lemma two_queues_full2:
  assumes "queues_bounded b m" and "items (buffer_pos b) = []" and "items (buffer_neg b) = []"
  shows "\<exists>ys. PrioritizedReplayBuffer2_size (foldl PrioritizedReplayBuffer2_add b ys) = 2 * int m"
proof -
  obtain s :: 'a and a :: 'b where True by simp
  let ?p = "(s, a, 1::real, False, s)" and ?n = "(s, a, 0::real, False, s)"
  let ?b1 = "foldl PrioritizedReplayBuffer2_add b (replicate m ?p)"
  have p: "items (buffer_pos ?b1) = replicate m ?p" "buffer_neg ?b1 = buffer_neg b"
    using fill_pos2 [of b m m ?p] assms by (simp_all add: queues_bounded_def reward_def)
  have n: "items (buffer_neg (foldl PrioritizedReplayBuffer2_add ?b1 (replicate m ?n)))
              = replicate m ?n"
    "buffer_pos (foldl PrioritizedReplayBuffer2_add ?b1 (replicate m ?n)) = buffer_pos ?b1"
    using fill_neg2 [of ?b1 m m ?n] assms p by (simp_all add: queues_bounded_def reward_def)
  have "PrioritizedReplayBuffer2_size
          (foldl PrioritizedReplayBuffer2_add b (replicate m ?p @ replicate m ?n)) = 2 * int m"
    using p n by (simp add: PrioritizedReplayBuffer2_size_def len_def)
  then show ?thesis by blast
qed

lemma queues_bounded_len:
  assumes "queues_bounded b (nat c)" and "0 < c"
  shows "len (buffer_pos b) \<le> c" and "len (buffer_neg b) \<le> c"
proof -
  have "length (items (buffer_pos b)) \<le> nat c" "length (items (buffer_neg b)) \<le> nat c"
    using assms(1) by (simp_all add: queues_bounded_def)
  then show "len (buffer_pos b) \<le> c" and "len (buffer_neg b) \<le> c"
    using assms(2) unfolding len_def by linarith+
qed

subsection \<open>Capacity and eviction\<close>

text \<open>
  C8. A buffer constructed with a positive capacity, after any sequence of \<open>add\<close>
  calls: a \<open>ReplayBuffer\<close> accepts every call and its \<open>size()\<close> (and the length of
  its deque) is at most the capacity; in the two other classes each queue holds at most
  the capacity, so \<open>size()\<close> is at most twice the capacity, and some sequence of
  calls reaches twice the capacity.
\<close>

theorem capacity_invariant:
  assumes "0 < capacity"
  shows "(\<exists>b. ReplayBuffer_add_all (fst (ReplayBuffer_init mt capacity seed w))
              (xs :: ('s, 'a) experience list) = Inr b
            \<and> ReplayBuffer_size b \<le> capacity \<and> len (buffer b) \<le> capacity)
     \<and> (\<exists>b0. fst (PrioritizedReplayBuffer_init mt capacity seed w) = Inr b0
            \<and> len (buffer_pos (foldl PrioritizedReplayBuffer_add b0 xs)) \<le> capacity
            \<and> len (buffer_neg (foldl PrioritizedReplayBuffer_add b0 xs)) \<le> capacity
            \<and> PrioritizedReplayBuffer_size (foldl PrioritizedReplayBuffer_add b0 xs) \<le> 2 * capacity
            \<and> (\<exists>zs. PrioritizedReplayBuffer_size (foldl PrioritizedReplayBuffer_add b0 zs)
                       = 2 * capacity))
     \<and> (\<exists>b0. fst (PrioritizedReplayBuffer2_init mt capacity seed w) = Inr b0
            \<and> len (buffer_pos (foldl PrioritizedReplayBuffer2_add b0 xs)) \<le> capacity
            \<and> len (buffer_neg (foldl PrioritizedReplayBuffer2_add b0 xs)) \<le> capacity
            \<and> PrioritizedReplayBuffer2_size (foldl PrioritizedReplayBuffer2_add b0 xs) \<le> 2 * capacity
            \<and> (\<exists>zs. PrioritizedReplayBuffer2_size (foldl PrioritizedReplayBuffer2_add b0 zs)
                       = 2 * capacity))"
proof (intro conjI)
  from ReplayBuffer_fill [OF assms, of mt seed w xs] obtain b where
    b: "ReplayBuffer_add_all (fst (ReplayBuffer_init mt capacity seed w)) xs = Inr b"
      "ReplayBuffer_inv b" "count b \<le> capacity"
    by blast
  then have "ReplayBuffer_size b \<le> capacity \<and> len (buffer b) \<le> capacity"
    by (simp add: ReplayBuffer_size_def ReplayBuffer_inv_def len_def)
  with b(1) show "\<exists>b. ReplayBuffer_add_all (fst (ReplayBuffer_init mt capacity seed w)) xs = Inr b
            \<and> ReplayBuffer_size b \<le> capacity \<and> len (buffer b) \<le> capacity"
    by blast
next
  from PrioritizedReplayBuffer_init_bounded [of capacity mt seed w] assms obtain b0 :: "('s, 'a) PrioritizedReplayBuffer" where
    b0: "fst (PrioritizedReplayBuffer_init mt capacity seed w) = Inr b0"
      "queues_bounded b0 (nat capacity)" "items (buffer_pos b0) = []" "items (buffer_neg b0) = []"
    by auto
  have "queues_bounded (foldl PrioritizedReplayBuffer_add b0 xs) (nat capacity)"
    using b0(2) by (rule foldl_add_bounded)
  then have le: "len (buffer_pos (foldl PrioritizedReplayBuffer_add b0 xs)) \<le> capacity"
      "len (buffer_neg (foldl PrioritizedReplayBuffer_add b0 xs)) \<le> capacity"
    using assms queues_bounded_len by (blast, blast)
  then have "PrioritizedReplayBuffer_size (foldl PrioritizedReplayBuffer_add b0 xs) \<le> 2 * capacity"
    by (simp add: PrioritizedReplayBuffer_size_def)
  moreover have "\<exists>zs. PrioritizedReplayBuffer_size (foldl PrioritizedReplayBuffer_add b0 zs)
                       = 2 * capacity"
    using two_queues_full [OF b0(2,3,4)] assms by simp
  ultimately show "\<exists>b0. fst (PrioritizedReplayBuffer_init mt capacity seed w) = Inr b0
            \<and> len (buffer_pos (foldl PrioritizedReplayBuffer_add b0 xs)) \<le> capacity
            \<and> len (buffer_neg (foldl PrioritizedReplayBuffer_add b0 xs)) \<le> capacity
            \<and> PrioritizedReplayBuffer_size (foldl PrioritizedReplayBuffer_add b0 xs) \<le> 2 * capacity
            \<and> (\<exists>zs. PrioritizedReplayBuffer_size (foldl PrioritizedReplayBuffer_add b0 zs)
                       = 2 * capacity)"
    using b0(1) le by blast
next
  from PrioritizedReplayBuffer_init_bounded [of capacity mt seed w] assms obtain b0 :: "('s, 'a) PrioritizedReplayBuffer" where
    b0: "fst (PrioritizedReplayBuffer2_init mt capacity seed w) = Inr b0"
      "queues_bounded b0 (nat capacity)" "items (buffer_pos b0) = []" "items (buffer_neg b0) = []"
    by (auto simp: PrioritizedReplayBuffer2_init_eq)
  have "queues_bounded (foldl PrioritizedReplayBuffer2_add b0 xs) (nat capacity)"
    using b0(2) by (rule foldl_add2_bounded)
  then have le: "len (buffer_pos (foldl PrioritizedReplayBuffer2_add b0 xs)) \<le> capacity"
      "len (buffer_neg (foldl PrioritizedReplayBuffer2_add b0 xs)) \<le> capacity"
    using assms queues_bounded_len by (blast, blast)
  then have "PrioritizedReplayBuffer2_size (foldl PrioritizedReplayBuffer2_add b0 xs) \<le> 2 * capacity"
    by (simp add: PrioritizedReplayBuffer2_size_def)
  moreover have "\<exists>zs. PrioritizedReplayBuffer2_size (foldl PrioritizedReplayBuffer2_add b0 zs)
                       = 2 * capacity"
    using two_queues_full2 [OF b0(2,3,4)] assms by simp
  ultimately show "\<exists>b0. fst (PrioritizedReplayBuffer2_init mt capacity seed w) = Inr b0
            \<and> len (buffer_pos (foldl PrioritizedReplayBuffer2_add b0 xs)) \<le> capacity
            \<and> len (buffer_neg (foldl PrioritizedReplayBuffer2_add b0 xs)) \<le> capacity
            \<and> PrioritizedReplayBuffer2_size (foldl PrioritizedReplayBuffer2_add b0 xs) \<le> 2 * capacity
            \<and> (\<exists>zs. PrioritizedReplayBuffer2_size (foldl PrioritizedReplayBuffer2_add b0 zs)
                       = 2 * capacity)"
    using b0(1) le by blast
qed

theorem capacity_invariant_witness:
  "(\<exists>b. ReplayBuffer_add_all
          (fst (ReplayBuffer_init (\<lambda>s i. nat s + i) 2 123 \<lparr>py_rng = (\<lambda>i. 0), np_rng = (\<lambda>i. 0)\<rparr>))
          [(1::nat, 0::nat, 0, False, 2), (2, 1, 1, False, 3), (3, 0, -1, True, 4)] = Inr b
        \<and> ReplayBuffer_size b \<le> 2 \<and> len (buffer b) \<le> 2)
   \<and> (\<exists>b0. fst (PrioritizedReplayBuffer_init (\<lambda>s i. nat s + i) 2 123
                   \<lparr>py_rng = (\<lambda>i. 0), np_rng = (\<lambda>i. 0)\<rparr>) = Inr b0
        \<and> PrioritizedReplayBuffer_size (foldl PrioritizedReplayBuffer_add b0
             [(1::nat, 0::nat, 0, False, 2), (2, 1, 1, False, 3), (3, 0, -1, True, 4)]) \<le> 4)
   \<and> (\<exists>b0. fst (PrioritizedReplayBuffer2_init (\<lambda>s i. nat s + i) 2 123
                   \<lparr>py_rng = (\<lambda>i. 0), np_rng = (\<lambda>i. 0)\<rparr>) = Inr b0
        \<and> PrioritizedReplayBuffer2_size (foldl PrioritizedReplayBuffer2_add b0
             [(1::nat, 0::nat, 0, False, 2), (2, 1, 1, False, 3), (3, 0, -1, True, 4)]) \<le> 4)"
  using capacity_invariant [of 2 "\<lambda>s i. nat s + i" 123 "\<lparr>py_rng = (\<lambda>i. 0), np_rng = (\<lambda>i. 0)\<rparr>"
      "[(1::nat, 0::nat, 0, False, 2), (2, 1, 1, False, 3), (3, 0, -1, True, 4)]"]
  by auto

text \<open>
  C9. After \<open>capacity + 1\<close> additions to a fresh \<open>ReplayBuffer\<close> of positive
  capacity the deque holds the additions but the first, in the order of insertion;
  \<open>size()\<close> is the capacity; when the additions are pairwise different the first one
  is not in the deque; and \<open>last_n_batch(capacity + 1)\<close> returns the columns of those
  \<open>capacity\<close> transitions in that order.
\<close>

theorem fifo_eviction:
  assumes "0 < capacity" and "int (length xs) = capacity + 1"
  shows "\<exists>b. ReplayBuffer_add_all (fst (ReplayBuffer_init mt capacity seed w)) xs = Inr b
     \<and> items (buffer b) = tl xs
     \<and> ReplayBuffer_size b = capacity
     \<and> (distinct xs \<longrightarrow> hd xs \<notin> set (items (buffer b)))
     \<and> fst (ReplayBuffer_last_n_batch b (capacity + 1)) = Inr (columns (tl xs))"
proof -
  from ReplayBuffer_fill [OF assms(1), of mt seed w xs] obtain b where
    b: "ReplayBuffer_add_all (fst (ReplayBuffer_init mt capacity seed w)) xs = Inr b"
      "ReplayBuffer_inv b" "items (buffer b) = drop (length xs - nat capacity) xs"
    by blast
  have "length xs - nat capacity = 1"
    using assms by linarith
  then have it: "items (buffer b) = tl xs"
    using b(3) by (simp add: drop_Suc)
  have "int (length (tl xs)) = capacity"
    using assms by simp
  then have cnt: "count b = capacity"
    using b(2) it by (simp add: ReplayBuffer_inv_def)
  have "distinct xs \<longrightarrow> hd xs \<notin> set (tl xs)"
    by (cases xs) auto
  with b(1) it cnt show ?thesis
    by (simp add: ReplayBuffer_size_def ReplayBuffer_last_n_batch_def)
qed

theorem fifo_eviction_witness:
  "\<exists>b. ReplayBuffer_add_all
          (fst (ReplayBuffer_init (\<lambda>s i. nat s + i) 2 123 \<lparr>py_rng = (\<lambda>i. 0), np_rng = (\<lambda>i. 0)\<rparr>))
          [(1::nat, 0::nat, 0, False, 2), (2, 1, 1, False, 3), (3, 0, -1, True, 4)] = Inr b
     \<and> items (buffer b) = [(2, 1, 1, False, 3), (3, 0, -1, True, 4)]
     \<and> ReplayBuffer_size b = 2
     \<and> (1, 0, 0, False, 2) \<notin> set (items (buffer b))
     \<and> fst (ReplayBuffer_last_n_batch b 3)
         = Inr ([2, 3], [1, 0], [1, -1], [False, True], [3, 4])"
  using fifo_eviction [of 2 "[(1::nat, 0::nat, 0, False, 2), (2, 1, 1, False, 3), (3, 0, -1, True, 4)]"
      "\<lambda>s i. nat s + i" 123 "\<lparr>py_rng = (\<lambda>i. 0), np_rng = (\<lambda>i. 0)\<rparr>"]
  by (simp add: columns_def)

subsection \<open>random.sample\<close>

lemma int_random_times_less:
  assumes "0 < m"
  shows "fst (int_random_times g m) < m"
proof -
  have "g 0 mod 2 ^ 53 < (2::nat) ^ 53" by simp
  then have "(g 0 mod 2 ^ 53) * m < m * 2 ^ 53"
    using assms by (simp add: mult.commute)
  then show ?thesis
    by (simp add: int_random_times_def less_mult_imp_div_less)
qed

lemma length_sample_loop: "length (fst (sample_loop g pool n i k)) = k"
  by (induction k arbitrary: g pool i) (simp_all add: split_beta Let_def)

lemma sample_loop_map:
  assumes "i + k \<le> n" and "n \<le> length pool"
  shows "sample_loop g (map f pool) n i k
           = (map f (fst (sample_loop g pool n i k)), snd (sample_loop g pool n i k))"
  using assms
proof (induction k arbitrary: g pool i)
  case 0
  then show ?case by simp
next
  case (Suc k)
  obtain j g' where jg: "int_random_times g (n - i) = (j, g')"
    by (cases "int_random_times g (n - i)")
  have "0 < n - i" using Suc.prems by simp
  from int_random_times_less [OF this, of g] jg have j: "j < n - i" by simp
  let ?pool' = "pool[j := pool ! (n - i - 1)]"
  have m: "map f ?pool' = (map f pool)[j := map f pool ! (n - i - 1)]"
    using Suc.prems j by (simp add: map_update)
  have "sample_loop g' (map f ?pool') n (Suc i) k
           = (map f (fst (sample_loop g' ?pool' n (Suc i) k)),
              snd (sample_loop g' ?pool' n (Suc i) k))"
    using Suc.prems by (intro Suc.IH) simp_all
  with m jg j Suc.prems show ?case
    by (simp add: split_beta)
qed

lemma sample_loop_indices:
  assumes "k \<le> length xs"
  shows "fst (sample_loop g xs (length xs) 0 k) = map (\<lambda>i. xs ! i) (sample_indices g (length xs) k)"
proof -
  have "sample_loop g (map (\<lambda>i. xs ! i) [0..<length xs]) (length xs) 0 k
          = (map (\<lambda>i. xs ! i) (fst (sample_loop g [0..<length xs] (length xs) 0 k)),
             snd (sample_loop g [0..<length xs] (length xs) 0 k))"
    using assms by (intro sample_loop_map) simp_all
  then show ?thesis
    by (simp add: sample_indices_def map_nth)
qed

lemma take_update_last:
  assumes "distinct (take (Suc m) pool)" and "Suc m \<le> length pool" and "j \<le> m"
  shows "distinct (take m (pool[j := pool ! m]))
       \<and> set (take m (pool[j := pool ! m])) = set (take (Suc m) pool) - {pool ! j}"
proof -
  have split: "take (Suc m) pool = take m pool @ [pool ! m]"
    using assms(2) by (simp add: take_Suc_conv_app_nth)
  with assms(1) have d: "distinct (take m pool)" and notin: "pool ! m \<notin> set (take m pool)"
    by simp_all
  show ?thesis
  proof (cases "j = m")
    case True
    then have "take m (pool[j := pool ! m]) = take m pool" by simp
    with d notin split True show ?thesis by auto
  next
    case False
    with assms(3) have jm: "j < m" by simp
    have lt: "j < length (take m pool)" using jm assms(2) by simp
    have t: "take m (pool[j := pool ! m]) = (take m pool)[j := pool ! m]"
      by (simp add: take_update_swap)
    have nj: "take m pool ! j = pool ! j" using jm by simp
    have "distinct ((take m pool)[j := pool ! m])"
      using d notin by (intro distinct_list_update) auto
    moreover have "set ((take m pool)[j := pool ! m]) = insert (pool ! m) (set (take m pool) - {pool ! j})"
      using set_update_distinct [OF d lt, of "pool ! m"] nj by simp
    moreover have "pool ! j \<in> set (take m pool)"
      using lt nj by (metis nth_mem)
    ultimately show ?thesis
      using t split notin by auto
  qed
qed

lemma sample_loop_distinct:
  assumes "i + k \<le> n" and "n \<le> length pool" and "distinct (take (n - i) pool)"
  shows "distinct (fst (sample_loop g pool n i k))
       \<and> set (fst (sample_loop g pool n i k)) \<subseteq> set (take (n - i) pool)"
  using assms
proof (induction k arbitrary: g pool i)
  case 0
  then show ?case by simp
next
  case (Suc k)
  obtain j g' where jg: "int_random_times g (n - i) = (j, g')"
    by (cases "int_random_times g (n - i)")
  have pos: "0 < n - i" using Suc.prems by simp
  from int_random_times_less [OF this, of g] jg have j: "j < n - i" by simp
  obtain m where m: "n - i = Suc m" using pos by (cases "n - i") auto
  let ?pool' = "pool[j := pool ! m]"
  have tu: "distinct (take m ?pool')"
    "set (take m ?pool') = set (take (Suc m) pool) - {pool ! j}"
    using take_update_last [of m pool j] Suc.prems j m by simp_all
  have nm: "n - Suc i = m" using m by simp
  have ih: "distinct (fst (sample_loop g' ?pool' n (Suc i) k))
       \<and> set (fst (sample_loop g' ?pool' n (Suc i) k)) \<subseteq> set (take (n - Suc i) ?pool')"
    using Suc.prems tu(1) nm by (intro Suc.IH) simp_all
  have mem: "pool ! j \<in> set (take (Suc m) pool)"
    using j m Suc.prems by (metis length_take min.absorb2 nth_mem nth_take le_trans diff_le_self)
  show ?case
    using ih tu(2) nm jg m mem by (auto simp: split_beta)
qed

lemma sample_indices_props:
  assumes "k \<le> n"
  shows "length (sample_indices g n k) = k" and "distinct (sample_indices g n k)"
    and "set (sample_indices g n k) \<subseteq> {..<n}"
proof -
  show "length (sample_indices g n k) = k"
    by (simp add: sample_indices_def length_sample_loop)
  have "distinct (fst (sample_loop g [0..<n] n 0 k))
       \<and> set (fst (sample_loop g [0..<n] n 0 k)) \<subseteq> set (take (n - 0) [0..<n])"
    using assms by (intro sample_loop_distinct) simp_all
  then show "distinct (sample_indices g n k)" and "set (sample_indices g n k) \<subseteq> {..<n}"
    by (auto simp: sample_indices_def)
qed

lemma random_sample_indices:
  assumes "0 \<le> k" and "k \<le> int (length xs)"
  shows "random_sample g xs k
    = Inr (map (\<lambda>i. xs ! i) (sample_indices g (length xs) (nat k)),
           snd (sample_loop g xs (length xs) 0 (nat k)))"
proof -
  have "nat k \<le> length xs" using assms by simp
  from sample_loop_indices [OF this, of g] assms show ?thesis
    by (simp add: random_sample_def Let_def prod_eq_iff)
qed

lemma sample_loop_select:
  "fst (sample_loop g pool n i k) = select (draws g (n - i) k) pool (n - i)"
proof (induction k arbitrary: g pool i)
  case 0
  then show ?case by simp
next
  case (Suc k)
  have "n - Suc i = n - i - 1" by simp
  with Suc.IH show ?case
    by (simp add: split_beta)
qed

lemma length_draws: "length (draws g m k) = k"
  by (induction k arbitrary: g m) (simp_all add: split_beta)

lemma draws_ok_draws: "k \<le> m \<Longrightarrow> draws_ok (draws g m k) m"
proof (induction k arbitrary: g m)
  case 0
  then show ?case by simp
next
  case (Suc k)
  then have "0 < m" by simp
  from int_random_times_less [OF this, of g] Suc show ?case
    by (simp add: split_beta)
qed

lemma length_select: "length (select js pool m) = length js"
  by (induction js arbitrary: pool m) simp_all

lemma select_distinct:
  assumes "draws_ok js m" and "m \<le> length pool" and "distinct (take m pool)"
  shows "distinct (select js pool m) \<and> set (select js pool m) \<subseteq> set (take m pool)"
  using assms
proof (induction js arbitrary: pool m)
  case Nil
  then show ?case by simp
next
  case (Cons j js)
  then obtain m' where m': "m = Suc m'" by (cases m) auto
  with Cons.prems have j: "j \<le> m'" by simp
  let ?pool' = "pool[j := pool ! m']"
  have tu: "distinct (take m' ?pool')"
    "set (take m' ?pool') = set (take (Suc m') pool) - {pool ! j}"
    using take_update_last [of m' pool j] Cons.prems j m' by simp_all
  have ih: "distinct (select js ?pool' m') \<and> set (select js ?pool' m') \<subseteq> set (take m' ?pool')"
    using Cons.prems tu(1) m' by (intro Cons.IH) simp_all
  have mem: "pool ! j \<in> set (take (Suc m') pool)"
    using j m' Cons.prems(2) by (auto simp: in_set_conv_nth intro!: exI [of _ j])
  show ?case
    using ih tu(2) m' mem by auto
qed

lemma select_inj:
  assumes "draws_ok js m" and "draws_ok js' m" and "length js = length js'"
    and "m \<le> length pool" and "distinct (take m pool)"
    and "select js pool m = select js' pool m"
  shows "js = js'"
  using assms
proof (induction js arbitrary: js' pool m)
  case Nil
  then show ?case by simp
next
  case (Cons j js)
  then obtain j' r where js': "js' = j' # r" by (cases js') auto
  from Cons.prems obtain m' where m': "m = Suc m'" by (cases m) auto
  have j: "j < m" "j' < m" using Cons.prems js' by simp_all
  have "pool ! j = pool ! j'" using Cons.prems(6) js' by simp
  then have "take m pool ! j = take m pool ! j'" using j by simp
  moreover have "j < length (take m pool)" "j' < length (take m pool)"
    using j Cons.prems(4) by simp_all
  ultimately have jj: "j = j'"
    using Cons.prems(5) nth_eq_iff_index_eq [of "take m pool" j j'] by blast
  let ?pool' = "pool[j := pool ! m']"
  have "distinct (take m' ?pool')"
    using take_update_last [of m' pool j] Cons.prems j m' by simp
  moreover have "select js ?pool' m' = select r ?pool' m'"
    using Cons.prems(6) js' jj m' by simp
  ultimately have "js = r"
    using Cons.prems js' m' by (intro Cons.IH [of m' r ?pool']) simp_all
  with jj js' show ?case by simp
qed

lemma select_surj:
  assumes "distinct ys" and "set ys \<subseteq> set (take m pool)" and "m \<le> length pool"
    and "distinct (take m pool)"
  shows "\<exists>js. length js = length ys \<and> draws_ok js m \<and> select js pool m = ys"
  using assms
proof (induction ys arbitrary: pool m)
  case Nil
  show ?case by (rule exI [of _ "[]"]) simp
next
  case (Cons y ys)
  then have "y \<in> set (take m pool)" by simp
  then obtain j where j: "j < m" "pool ! j = y"
    using Cons.prems(3) by (auto simp: in_set_conv_nth)
  then obtain m' where m': "m = Suc m'" by (cases m) auto
  let ?pool' = "pool[j := pool ! m']"
  have tu: "distinct (take m' ?pool')"
    "set (take m' ?pool') = set (take (Suc m') pool) - {pool ! j}"
    using take_update_last [of m' pool j] Cons.prems j m' by simp_all
  have "set ys \<subseteq> set (take m' ?pool')"
    using tu(2) Cons.prems(1,2) j m' by auto
  then have "\<exists>js. length js = length ys \<and> draws_ok js m' \<and> select js ?pool' m' = ys"
    using Cons.prems tu(1) m' by (intro Cons.IH) simp_all
  then obtain js where js: "length js = length ys" "draws_ok js m'" "select js ?pool' m' = ys"
    by blast
  show ?case
    by (rule exI [of _ "j # js"]) (use js j m' in simp)
qed

lemma select_bij:
  assumes "k \<le> n"
  shows "bij_betw (\<lambda>js. select js [0..<n] n)
           {js. length js = k \<and> draws_ok js n}
           {ys. length ys = k \<and> distinct ys \<and> set ys \<subseteq> {..<n}}"
  unfolding bij_betw_def
proof
  show "inj_on (\<lambda>js. select js [0..<n] n) {js. length js = k \<and> draws_ok js n}"
    by (rule inj_onI) (auto intro: select_inj [of _ n _ "[0..<n]"])
  show "(\<lambda>js. select js [0..<n] n) ` {js. length js = k \<and> draws_ok js n}
          = {ys. length ys = k \<and> distinct ys \<and> set ys \<subseteq> {..<n}}"
  proof (intro equalityI subsetI)
    fix ys assume "ys \<in> (\<lambda>js. select js [0..<n] n) ` {js. length js = k \<and> draws_ok js n}"
    then obtain js where js: "ys = select js [0..<n] n" "length js = k" "draws_ok js n"
      by auto
    from select_distinct [OF js(3), of "[0..<n]"] js(1,2)
    show "ys \<in> {ys. length ys = k \<and> distinct ys \<and> set ys \<subseteq> {..<n}}"
      by (auto simp: length_select)
  next
    fix ys assume "ys \<in> {ys. length ys = k \<and> distinct ys \<and> set ys \<subseteq> {..<n}}"
    then have ys: "length ys = k" "distinct ys" "set ys \<subseteq> set (take n [0..<n])"
      by auto
    from select_surj [OF ys(2,3)] obtain js where
      "length js = length ys" "draws_ok js n" "select js [0..<n] n = ys"
      by auto
    with ys(1) show "ys \<in> (\<lambda>js. select js [0..<n] n) ` {js. length js = k \<and> draws_ok js n}"
      by auto
  qed
qed

lemma sample_indices_select:
  "sample_indices g n k = select (draws g n k) [0..<n] n"
  by (simp add: sample_indices_def sample_loop_select)

subsection \<open>Sampling from a ReplayBuffer\<close>

lemma ReplayBuffer_add_inv:
  assumes "ReplayBuffer_inv b" and "ReplayBuffer_add b x = Inr b'"
  shows "ReplayBuffer_inv b'"
proof (cases "count b < buffer_size b")
  case True
  with assms show ?thesis
    by (auto simp: ReplayBuffer_add_def ReplayBuffer_inv_def deque_append_def)
next
  case False
  with assms obtain y ys where "items (buffer b) = y # ys"
    by (cases "items (buffer b)") (auto simp: ReplayBuffer_add_def deque_popleft_def)
  with False assms show ?thesis
    by (auto simp: ReplayBuffer_add_def ReplayBuffer_inv_def deque_append_def deque_popleft_def)
qed

lemma ReplayBuffer_reachable_inv: "ReplayBuffer_reachable b \<Longrightarrow> ReplayBuffer_inv b"
  by (induction rule: ReplayBuffer_reachable.induct)
    (simp_all add: ReplayBuffer_init_inv ReplayBuffer_add_inv)

lemma all_indices:
  assumes "distinct idx" and "length idx = n" and "set idx \<subseteq> {..<n}"
  shows "mset (map (\<lambda>i. xs ! i) idx) = mset (map (\<lambda>i. xs ! i) [0..<n])"
proof -
  have "card (set idx) = card {..<n}"
    using assms(1,2) by (simp add: distinct_card)
  with assms(3) have "set idx = {..<n}"
    by (intro card_subset_eq) simp_all
  then have "mset_set (set idx) = mset_set {0..<n}"
    by (simp add: lessThan_atLeast0)
  then have "mset idx = mset [0..<n]"
    using assms(1) by (simp add: mset_set_set)
  then show ?thesis
    by (metis mset_map)
qed

lemma column_lengths_columns: "column_lengths (columns batch) = replicate 5 (length batch)"
  by (simp add: column_lengths_def columns_def numeral_eq_Suc)

text \<open>
  C1. For every buffer \<open>ReplayBuffer\<close> produces and every \<open>batch_size \<ge> 0\<close>,
  \<open>sample_batch\<close> returns five columns, each of length \<open>min(batch_size, size())\<close>,
  holding the transitions at pairwise different positions \<open>idx\<close> of the deque; when
  \<open>batch_size > size()\<close> these are all stored transitions (as a multiset), and on an
  empty buffer there are none. Uniformity: the positions are those the selection loop
  computes from its draws, every draw lies in the range it is drawn from, and the loop
  maps the vectors of such draws one-to-one onto the sequences of \<open>length idx\<close>
  pairwise different positions; so draws that are uniform on their ranges and
  independent make every such sequence equally likely.
\<close>

theorem uniform_sample_batch:
  assumes "ReplayBuffer_reachable self" and "0 \<le> batch_size"
  shows "\<exists>idx g.
     ReplayBuffer_sample_batch self w batch_size
       = (Inr (columns (map (\<lambda>i. items (buffer self) ! i) idx)), self, w\<lparr>py_rng := g\<rparr>)
     \<and> column_lengths (columns (map (\<lambda>i. items (buffer self) ! i) idx))
         = replicate 5 (length idx)
     \<and> int (length idx) = min batch_size (ReplayBuffer_size self)
     \<and> distinct idx \<and> set idx \<subseteq> {..<length (items (buffer self))}
     \<and> (ReplayBuffer_size self < batch_size
          \<longrightarrow> mset (map (\<lambda>i. items (buffer self) ! i) idx) = mset (items (buffer self)))
     \<and> (ReplayBuffer_size self = 0 \<longrightarrow> idx = [])
     \<and> idx = select (draws (py_rng w) (length (items (buffer self))) (length idx))
                [0..<length (items (buffer self))] (length (items (buffer self)))
     \<and> draws_ok (draws (py_rng w) (length (items (buffer self))) (length idx))
          (length (items (buffer self)))
     \<and> bij_betw (\<lambda>js. select js [0..<length (items (buffer self))] (length (items (buffer self))))
          {js. length js = length idx \<and> draws_ok js (length (items (buffer self)))}
          {ys. length ys = length idx \<and> distinct ys
                \<and> set ys \<subseteq> {..<length (items (buffer self))}}"
proof -
  let ?xs = "items (buffer self)"
  let ?n = "length ?xs"
  have cnt: "count self = int ?n"
    using ReplayBuffer_reachable_inv [OF assms(1)] by (simp add: ReplayBuffer_inv_def)
  define k where "k = min batch_size (count self)"
  have k: "0 \<le> k" "k \<le> int ?n"
    using assms(2) cnt by (simp_all add: k_def)
  define idx where "idx = sample_indices (py_rng w) ?n (nat k)"
  define g where "g = snd (sample_loop (py_rng w) ?xs ?n 0 (nat k))"
  have rs: "random_sample (py_rng w) ?xs k = Inr (map (\<lambda>i. ?xs ! i) idx, g)"
    using random_sample_indices [OF k] by (simp add: idx_def g_def)
  have "(if count self < batch_size then random_sample (py_rng w) ?xs (count self)
         else random_sample (py_rng w) ?xs batch_size) = random_sample (py_rng w) ?xs k"
    by (simp add: k_def min_def)
  then have run: "ReplayBuffer_sample_batch self w batch_size
       = (Inr (columns (map (\<lambda>i. ?xs ! i) idx)), self, w\<lparr>py_rng := g\<rparr>)"
    by (simp add: ReplayBuffer_sample_batch_def rs)
  have nk: "nat k \<le> ?n" using k by simp
  note p = sample_indices_props [OF nk, of "py_rng w"]
  have len: "length idx = nat k" using p(1) by (simp add: idx_def)
  then have lenk: "int (length idx) = min batch_size (ReplayBuffer_size self)"
    using k by (simp add: k_def ReplayBuffer_size_def)
  have d: "distinct idx" "set idx \<subseteq> {..<?n}"
    using p(2,3) by (simp_all add: idx_def)
  have cl: "column_lengths (columns (map (\<lambda>i. ?xs ! i) idx)) = replicate 5 (length idx)"
    by (simp add: column_lengths_columns)
  have whole: "ReplayBuffer_size self < batch_size
          \<longrightarrow> mset (map (\<lambda>i. ?xs ! i) idx) = mset ?xs"
  proof
    assume "ReplayBuffer_size self < batch_size"
    then have "length idx = ?n"
      using len cnt by (simp add: k_def ReplayBuffer_size_def)
    from all_indices [OF d(1) this d(2), of ?xs] show "mset (map (\<lambda>i. ?xs ! i) idx) = mset ?xs"
      by (simp add: map_nth)
  qed
  have empty: "ReplayBuffer_size self = 0 \<longrightarrow> idx = []"
    using len assms(2) by (auto simp: k_def ReplayBuffer_size_def)
  have sel: "idx = select (draws (py_rng w) ?n (length idx)) [0..<?n] ?n"
    using len by (simp add: idx_def sample_indices_select)
  have ok: "draws_ok (draws (py_rng w) ?n (length idx)) ?n"
    using nk len by (simp add: draws_ok_draws)
  have bij: "bij_betw (\<lambda>js. select js [0..<?n] ?n)
          {js. length js = length idx \<and> draws_ok js ?n}
          {ys. length ys = length idx \<and> distinct ys \<and> set ys \<subseteq> {..<?n}}"
    using nk len by (intro select_bij) simp
  show ?thesis
    apply (rule exI [of _ idx])
    apply (rule exI [of _ g])
    using run cl lenk d whole empty sel ok bij
    apply (intro conjI)
    apply assumption+
    done
qed

theorem uniform_sample_batch_witness:
  "ReplayBuffer_reachable
     \<lparr>buffer_size = 10, count = 3,
      buffer = \<lparr>items = [(1::nat, 0::nat, 0, False, 2), (2, 1, 1, False, 3), (3, 0, -1, True, 4)],
                maxlen = None\<rparr>\<rparr>
   \<and> (0::int) \<le> 2
   \<and> fst (ReplayBuffer_sample_batch
        \<lparr>buffer_size = 10, count = 3,
         buffer = \<lparr>items = [(1::nat, 0::nat, 0, False, 2), (2, 1, 1, False, 3), (3, 0, -1, True, 4)],
                   maxlen = None\<rparr>\<rparr>
        \<lparr>py_rng = (\<lambda>i. 0), np_rng = (\<lambda>i. 0)\<rparr> 2)
      = Inr ([1, 3], [0, 0], [0, -1], [False, True], [2, 4])
   \<and> (\<exists>idx. int (length idx) = 2 \<and> distinct idx \<and> set idx \<subseteq> {..<3}
        \<and> fst (ReplayBuffer_sample_batch
             \<lparr>buffer_size = 10, count = 3,
              buffer = \<lparr>items = [(1::nat, 0::nat, 0, False, 2), (2, 1, 1, False, 3), (3, 0, -1, True, 4)],
                        maxlen = None\<rparr>\<rparr>
             \<lparr>py_rng = (\<lambda>i. 0), np_rng = (\<lambda>i. 0)\<rparr> 2)
           = Inr (columns (map (\<lambda>i. [(1::nat, 0::nat, 0, False, 2), (2, 1, 1, False, 3), (3, 0, -1, True, 4)] ! i) idx)))"
proof -
  let ?e1 = "(1::nat, 0::nat, 0::real, False, 2::nat)"
  let ?e2 = "(2::nat, 1::nat, 1::real, False, 3::nat)"
  let ?e3 = "(3::nat, 0::nat, -1::real, True, 4::nat)"
  let ?w = "\<lparr>py_rng = (\<lambda>i. 0), np_rng = (\<lambda>i. 0)\<rparr>"
  let ?b0 = "fst (ReplayBuffer_init (\<lambda>s i. 0) 10 123 ?w) :: (nat, nat) ReplayBuffer"
  let ?b1 = "\<lparr>buffer_size = 10, count = 1, buffer = \<lparr>items = [?e1], maxlen = None\<rparr>\<rparr>"
  let ?b2 = "\<lparr>buffer_size = 10, count = 2, buffer = \<lparr>items = [?e1, ?e2], maxlen = None\<rparr>\<rparr>"
  let ?b3 = "\<lparr>buffer_size = 10, count = 3, buffer = \<lparr>items = [?e1, ?e2, ?e3], maxlen = None\<rparr>\<rparr>"
  have r0: "ReplayBuffer_reachable ?b0" by (rule constructed)
  have "ReplayBuffer_add ?b0 ?e1 = Inr ?b1"
    by (simp add: ReplayBuffer_add_def ReplayBuffer_init_def deque_append_def)
  from added [OF r0 this] have r1: "ReplayBuffer_reachable ?b1" .
  have "ReplayBuffer_add ?b1 ?e2 = Inr ?b2"
    by (simp add: ReplayBuffer_add_def deque_append_def)
  from added [OF r1 this] have r2: "ReplayBuffer_reachable ?b2" .
  have "ReplayBuffer_add ?b2 ?e3 = Inr ?b3"
    by (simp add: ReplayBuffer_add_def deque_append_def)
  from added [OF r2 this] have r3: "ReplayBuffer_reachable ?b3" .
  have ev: "fst (ReplayBuffer_sample_batch ?b3 ?w 2) = Inr ([1, 3], [0, 0], [0, -1], [False, True], [2, 4])"
    by (simp add: ReplayBuffer_sample_batch_def random_sample_def int_random_times_def
        columns_def numeral_2_eq_2)
  have h: "(0::int) \<le> 2" by simp
  from uniform_sample_batch [OF r3 h, of ?w] obtain idx g where
    a: "ReplayBuffer_sample_batch ?b3 ?w 2
       = (Inr (columns (map (\<lambda>i. items (buffer ?b3) ! i) idx)), ?b3, ?w\<lparr>py_rng := g\<rparr>)"
    and b: "int (length idx) = min 2 (ReplayBuffer_size ?b3)"
    and c: "distinct idx" and d: "set idx \<subseteq> {..<length (items (buffer ?b3))}"
    by blast
  have "fst (ReplayBuffer_sample_batch ?b3 ?w 2) = Inr (columns (map (\<lambda>i. [?e1, ?e2, ?e3] ! i) idx))"
    using a by simp
  moreover have "int (length idx) = 2"
    using b by (simp add: ReplayBuffer_size_def)
  moreover have "set idx \<subseteq> {..<3}"
    using d by (simp add: numeral_3_eq_3)
  moreover note c h
  ultimately show ?thesis using r3 ev by blast
qed

subsection \<open>Sampling from a PrioritizedReplayBuffer\<close>

lemma pos_sample_size_eq:
  assumes "0 \<le> of_int batch_size * p_ratio"
  shows "pos_sample_size batch_size p_ratio num_pos
           = min \<lfloor>of_int batch_size * p_ratio\<rfloor> num_pos"
  using assms by (simp add: pos_sample_size_def py_int_def Let_def min_def)

lemma neg_sample_size_eq: "neg_sample_size batch_size pos_size num_neg = min (batch_size - pos_size) num_neg"
  by (simp add: neg_sample_size_def Let_def min_def)

lemma usual_arguments:
  assumes "0 \<le> batch_size" and "0 \<le> (p_ratio :: real)" and "p_ratio \<le> 1"
  shows "0 \<le> of_int batch_size * p_ratio"
    and "min \<lfloor>of_int batch_size * p_ratio\<rfloor> num_pos \<le> batch_size"
proof -
  show "0 \<le> real_of_int batch_size * p_ratio" using assms by simp
  have "real_of_int batch_size * p_ratio \<le> of_int batch_size * 1"
    using assms by (intro mult_left_mono) simp_all
  then have "\<lfloor>of_int batch_size * p_ratio\<rfloor> \<le> \<lfloor>real_of_int batch_size\<rfloor>"
    by (intro floor_mono) simp
  then show "min \<lfloor>of_int batch_size * p_ratio\<rfloor> num_pos \<le> batch_size" by simp
qed

text \<open>
  C7. For every \<open>PrioritizedReplayBuffer\<close> and all arguments for which the two
  counts below are not negative (by the lemma above, every \<open>batch_size \<ge> 0\<close> with
  every \<open>p_ratio\<close> between 0 and 1), \<open>sample_batch\<close> returns the columns of
  \<open>min(floor(batch_size * p_ratio), len(buffer_pos))\<close> transitions at pairwise different
  positions of the positive queue, followed by
  \<open>min(batch_size - that count, len(buffer_neg))\<close> transitions at pairwise different
  positions of the negative queue; with \<open>batch_size = 20\<close>, \<open>p_ratio = 0.25\<close>, at
  least 5 positive and at least 15 negative transitions these are 5 and 15.
\<close>

theorem stratified_sample_batch:
  assumes "0 \<le> of_int batch_size * p_ratio"
    and "min \<lfloor>of_int batch_size * p_ratio\<rfloor> (len (buffer_pos self)) \<le> batch_size"
  shows "\<exists>pos_idx neg_idx g.
     PrioritizedReplayBuffer_sample_batch self w batch_size p_ratio
       = (Inr (columns (map (\<lambda>i. items (buffer_pos self) ! i) pos_idx
                        @ map (\<lambda>i. items (buffer_neg self) ! i) neg_idx)),
          self, w\<lparr>py_rng := g\<rparr>)
     \<and> int (length pos_idx) = min \<lfloor>of_int batch_size * p_ratio\<rfloor> (len (buffer_pos self))
     \<and> int (length neg_idx) = min (batch_size - int (length pos_idx)) (len (buffer_neg self))
     \<and> distinct pos_idx \<and> set pos_idx \<subseteq> {..<length (items (buffer_pos self))}
     \<and> distinct neg_idx \<and> set neg_idx \<subseteq> {..<length (items (buffer_neg self))}
     \<and> (batch_size = 20 \<and> p_ratio = 0.25 \<and> 5 \<le> len (buffer_pos self) \<and> 15 \<le> len (buffer_neg self)
          \<longrightarrow> length pos_idx = 5 \<and> length neg_idx = 15)"
proof -
  let ?pos = "items (buffer_pos self)" and ?neg = "items (buffer_neg self)"
  let ?f = "\<lfloor>of_int batch_size * p_ratio\<rfloor>"
  define ps where "ps = min ?f (len (buffer_pos self))"
  define ns where "ns = min (batch_size - ps) (len (buffer_neg self))"
  have f: "0 \<le> ?f"
    using assms(1) by simp
  have ps: "0 \<le> ps" "ps \<le> int (length ?pos)" "ps \<le> batch_size"
    using f assms(2) by (simp_all add: ps_def len_def)
  have ns: "0 \<le> ns" "ns \<le> int (length ?neg)"
    using ps by (simp_all add: ns_def len_def)
  define pos_idx where "pos_idx = sample_indices (py_rng w) (length ?pos) (nat ps)"
  define g1 where "g1 = snd (sample_loop (py_rng w) ?pos (length ?pos) 0 (nat ps))"
  define neg_idx where "neg_idx = sample_indices g1 (length ?neg) (nat ns)"
  define g2 where "g2 = snd (sample_loop g1 ?neg (length ?neg) 0 (nat ns))"
  have s1: "random_sample (py_rng w) ?pos ps = Inr (map (\<lambda>i. ?pos ! i) pos_idx, g1)"
    using random_sample_indices [OF ps(1,2)] by (simp add: pos_idx_def g1_def)
  have s2: "random_sample g1 ?neg ns = Inr (map (\<lambda>i. ?neg ! i) neg_idx, g2)"
    using random_sample_indices [OF ns] by (simp add: neg_idx_def g2_def)
  have sizes: "pos_sample_size batch_size p_ratio (len (buffer_pos self)) = ps"
    "neg_sample_size batch_size ps (len (buffer_neg self)) = ns"
    using assms(1) by (simp_all add: pos_sample_size_eq neg_sample_size_eq ps_def ns_def)
  have run: "PrioritizedReplayBuffer_sample_batch self w batch_size p_ratio
       = (Inr (columns (map (\<lambda>i. ?pos ! i) pos_idx @ map (\<lambda>i. ?neg ! i) neg_idx)),
          self, w\<lparr>py_rng := g2\<rparr>)"
    by (simp add: PrioritizedReplayBuffer_sample_batch_def sizes s1 s2)
  have "nat ps \<le> length ?pos" "nat ns \<le> length ?neg"
    using ps ns by simp_all
  note p = sample_indices_props [OF this(1), of "py_rng w"] and n = sample_indices_props [OF this(2), of g1]
  have lp: "int (length pos_idx) = ps" using p(1) ps by (simp add: pos_idx_def)
  have ln: "int (length neg_idx) = ns" using n(1) ns by (simp add: neg_idx_def)
  have lp': "int (length pos_idx) = min ?f (len (buffer_pos self))"
    using lp by (simp add: ps_def)
  have ln': "int (length neg_idx) = min (batch_size - int (length pos_idx)) (len (buffer_neg self))"
    using ln lp by (simp add: ns_def)
  have special: "batch_size = 20 \<and> p_ratio = 0.25 \<and> 5 \<le> len (buffer_pos self) \<and> 15 \<le> len (buffer_neg self)
          \<longrightarrow> length pos_idx = 5 \<and> length neg_idx = 15"
  proof
    assume a: "batch_size = 20 \<and> p_ratio = 0.25 \<and> 5 \<le> len (buffer_pos self) \<and> 15 \<le> len (buffer_neg self)"
    then have "real_of_int batch_size * p_ratio = 5" by simp
    then have "?f = 5" by simp
    with a lp' have "int (length pos_idx) = 5" by simp
    moreover from this a ln' have "int (length neg_idx) = 15" by simp
    ultimately show "length pos_idx = 5 \<and> length neg_idx = 15" by simp
  qed
  show ?thesis
    using run lp' ln' p(2,3) n(2,3) special
    unfolding pos_idx_def [symmetric] neg_idx_def [symmetric]
    by blast
qed

theorem stratified_sample_batch_witness:
  "(0::real) \<le> of_int 4 * (1 / 2)
   \<and> min \<lfloor>of_int 4 * (1 / 2 :: real)\<rfloor> (int (length [(1::nat, 0::nat, 1::real, False, 2::nat), (2, 1, 2, False, 3)])) \<le> 4
   \<and> fst (PrioritizedReplayBuffer_sample_batch
        \<lparr>pbuffer_size = 10,
         buffer_pos = \<lparr>items = [(1::nat, 0::nat, 1, False, 2), (2, 1, 2, False, 3)], maxlen = Some 10\<rparr>,
         buffer_neg = \<lparr>items = [(3, 0, 0, False, 4), (4, 1, -1, False, 5), (5, 0, -2, True, 6)],
                       maxlen = Some 10\<rparr>\<rparr>
        \<lparr>py_rng = (\<lambda>i. 0), np_rng = (\<lambda>i. 0)\<rparr> 4 (1 / 2))
      = Inr ([1, 2, 3, 5], [0, 1, 0, 0], [1, 2, 0, -2], [False, False, False, True], [2, 3, 4, 6])
   \<and> (\<exists>pos_idx neg_idx. int (length pos_idx) = 2 \<and> int (length neg_idx) = 2
        \<and> distinct pos_idx \<and> distinct neg_idx
        \<and> fst (PrioritizedReplayBuffer_sample_batch
             \<lparr>pbuffer_size = 10,
              buffer_pos = \<lparr>items = [(1::nat, 0::nat, 1, False, 2), (2, 1, 2, False, 3)], maxlen = Some 10\<rparr>,
              buffer_neg = \<lparr>items = [(3, 0, 0, False, 4), (4, 1, -1, False, 5), (5, 0, -2, True, 6)],
                            maxlen = Some 10\<rparr>\<rparr>
             \<lparr>py_rng = (\<lambda>i. 0), np_rng = (\<lambda>i. 0)\<rparr> 4 (1 / 2))
           = Inr (columns (map (\<lambda>i. [(1::nat, 0::nat, 1, False, 2), (2, 1, 2, False, 3)] ! i) pos_idx
                @ map (\<lambda>i. [(3, 0, 0, False, 4), (4, 1, -1, False, 5), (5, 0, -2, True, 6)] ! i) neg_idx)))"
proof -
  let ?b = "\<lparr>pbuffer_size = 10,
         buffer_pos = \<lparr>items = [(1::nat, 0::nat, 1::real, False, 2::nat), (2, 1, 2, False, 3)], maxlen = Some 10\<rparr>,
         buffer_neg = \<lparr>items = [(3, 0, 0, False, 4), (4, 1, -1, False, 5), (5, 0, -2, True, 6)],
                       maxlen = Some 10\<rparr>\<rparr>"
  let ?w = "\<lparr>py_rng = (\<lambda>i. 0), np_rng = (\<lambda>i. 0)\<rparr>"
  have ev: "fst (PrioritizedReplayBuffer_sample_batch ?b ?w 4 (1 / 2))
      = Inr ([1, 2, 3, 5], [0, 1, 0, 0], [1, 2, 0, -2], [False, False, False, True], [2, 3, 4, 6])"
    by (simp add: PrioritizedReplayBuffer_sample_batch_def pos_sample_size_def
        neg_sample_size_def py_int_def len_def random_sample_def int_random_times_def
        columns_def numeral_2_eq_2)
  have h: "(0::real) \<le> of_int 4 * (1 / 2)"
    "min \<lfloor>of_int 4 * (1 / 2 :: real)\<rfloor> (len (buffer_pos ?b)) \<le> 4"
    by (simp_all add: len_def)
  have h': "min \<lfloor>of_int 4 * (1 / 2 :: real)\<rfloor> (int (length [(1::nat, 0::nat, 1::real, False, 2::nat), (2, 1, 2, False, 3)])) \<le> 4"
    by simp
  from stratified_sample_batch [OF h, of ?w] obtain pos_idx neg_idx g where
    a: "PrioritizedReplayBuffer_sample_batch ?b ?w 4 (1 / 2)
       = (Inr (columns (map (\<lambda>i. items (buffer_pos ?b) ! i) pos_idx
                        @ map (\<lambda>i. items (buffer_neg ?b) ! i) neg_idx)), ?b, ?w\<lparr>py_rng := g\<rparr>)"
    and b: "int (length pos_idx) = min \<lfloor>of_int 4 * (1 / 2 :: real)\<rfloor> (len (buffer_pos ?b))"
    and c: "int (length neg_idx) = min (4 - int (length pos_idx)) (len (buffer_neg ?b))"
    and d: "distinct pos_idx" "distinct neg_idx"
    by blast
  have lp: "int (length pos_idx) = 2"
    using b by (simp add: len_def)
  have ln: "int (length neg_idx) = 2"
    using c lp by (simp add: len_def)
  have "fst (PrioritizedReplayBuffer_sample_batch ?b ?w 4 (1 / 2))
           = Inr (columns (map (\<lambda>i. [(1::nat, 0::nat, 1, False, 2), (2, 1, 2, False, 3)] ! i) pos_idx
                @ map (\<lambda>i. [(3, 0, 0, False, 4), (4, 1, -1, False, 5), (5, 0, -2, True, 6)] ! i) neg_idx))"
    using a by simp
  with lp ln d have "int (length pos_idx) = 2 \<and> int (length neg_idx) = 2
        \<and> distinct pos_idx \<and> distinct neg_idx
        \<and> fst (PrioritizedReplayBuffer_sample_batch ?b ?w 4 (1 / 2))
           = Inr (columns (map (\<lambda>i. [(1::nat, 0::nat, 1, False, 2), (2, 1, 2, False, 3)] ! i) pos_idx
                @ map (\<lambda>i. [(3, 0, 0, False, 4), (4, 1, -1, False, 5), (5, 0, -2, True, 6)] ! i) neg_idx))"
    by blast
  with ev h(1) h' show ?thesis by blast
qed

subsection \<open>The weights of the positive queue\<close>

lemma overflow_threshold_gt_one: "1 < overflow_threshold"
  by (simp add: overflow_threshold_def)

lemma overflow_threshold_le: "overflow_threshold \<le> 2 ^ 1024"
  by (simp add: overflow_threshold_def)

lemma exp_2000_overflows: "overflow_threshold \<le> exp (2000::real)"
proof -
  have "(2::real) \<le> exp 1"
    using exp_ge_add_one_self [of "1::real"] by simp
  then have "(2::real) ^ 2000 \<le> exp 1 ^ 2000"
    by (intro power_mono) simp_all
  also have "exp (1::real) ^ 2000 = exp (of_nat 2000 * 1)"
    by (rule exp_of_nat_mult [symmetric])
  finally have "(2::real) ^ 2000 \<le> exp 2000" by simp
  moreover have "(2::real) ^ 1024 \<le> 2 ^ 2000"
    by (intro power_increasing) simp_all
  ultimately show ?thesis
    using overflow_threshold_le by linarith
qed

lemma fl_round_Fin: "- overflow_threshold < x \<Longrightarrow> x < overflow_threshold \<Longrightarrow> fl_round x = Fin x"
  by (simp add: fl_round_def)

lemma foldl_np_add_Fin:
  assumes "0 \<le> a" and "list_all (\<lambda>e. 0 \<le> e) es" and "a + sum_list es < overflow_threshold"
  shows "foldl np_add (Fin a) (map Fin es) = Fin (a + sum_list es)"
  using assms
proof (induction es arbitrary: a)
  case Nil
  then show ?case by simp
next
  case (Cons e es)
  have nn: "0 \<le> sum_list es"
    using Cons.prems(2) by (intro sum_list_nonneg) (simp add: list_all_iff)
  have e: "0 \<le> e" using Cons.prems(2) by simp
  have tot: "a + e + sum_list es < overflow_threshold"
    using Cons.prems(3) by (simp add: add.assoc)
  have "fl_round (a + e) = Fin (a + e)"
    using Cons.prems(1) tot e nn overflow_threshold_gt_one by (intro fl_round_Fin) linarith+
  moreover have "foldl np_add (Fin (a + e)) (map Fin es) = Fin (a + e + sum_list es)"
    using Cons.prems e by (intro Cons.IH) (simp_all add: add.assoc)
  ultimately show ?case by (simp add: add.assoc)
qed

lemma member_le_sum_list:
  assumes "list_all (\<lambda>e. 0 \<le> e) es" and "x \<in> set es"
  shows "x \<le> (sum_list es :: real)"
  using assms
proof (induction es)
  case Nil
  then show ?case by simp
next
  case (Cons e es)
  have "0 \<le> sum_list es"
    using Cons.prems(1) by (intro sum_list_nonneg) (simp add: list_all_iff)
  with Cons show ?case by auto
qed

lemma softmax_plain:
  assumes "rs \<noteq> []" and "(\<Sum>x\<leftarrow>rs. exp x) < overflow_threshold"
  shows "softmax (map Fin rs) = map (\<lambda>r. Fin (exp r / (\<Sum>x\<leftarrow>rs. exp x))) rs"
proof -
  let ?es = "map exp rs" and ?S = "\<Sum>x\<leftarrow>rs. exp x"
  have nn: "list_all (\<lambda>e. 0 \<le> e) ?es"
    by (simp add: list_all_iff)
  have le: "exp r \<le> ?S" if "r \<in> set rs" for r
    using member_le_sum_list [OF nn, of "exp r"] that by simp
  obtain r0 where "r0 \<in> set rs" using assms(1) by (cases rs) auto
  then have Spos: "0 < ?S"
    using le [of r0] exp_gt_zero [of r0] by linarith
  have e: "map np_exp (map Fin rs) = map Fin ?es"
  proof -
    have "np_exp (Fin r) = Fin (exp r)" if "r \<in> set rs" for r
    proof -
      have "0 < exp r" by simp
      then have "fl_round (exp r) = Fin (exp r)"
        using le [OF that] assms(2) overflow_threshold_gt_one
        by (intro fl_round_Fin) linarith+
      then show ?thesis by simp
    qed
    then show ?thesis by simp
  qed
  have s: "np_sum (map Fin ?es) = Fin ?S"
    using foldl_np_add_Fin [OF _ nn, of 0] assms(2) by (simp add: np_sum_def)
  have d: "np_divide (Fin (exp r)) (Fin ?S) = Fin (exp r / ?S)" if "r \<in> set rs" for r
  proof -
    have "exp r / ?S \<le> 1" using le [OF that] Spos by simp
    moreover have "0 < exp r / ?S" using Spos by simp
    ultimately have "fl_round (exp r / ?S) = Fin (exp r / ?S)"
      using overflow_threshold_gt_one by (intro fl_round_Fin) linarith+
    with Spos show ?thesis by simp
  qed
  have "softmax (map Fin rs)
          = map (\<lambda>x. np_divide x (np_sum (map Fin ?es))) (map Fin ?es)"
    by (simp only: softmax_def Let_def e)
  also have "\<dots> = map (\<lambda>x. np_divide x (Fin ?S)) (map Fin ?es)"
    by (simp only: s)
  also have "\<dots> = map (\<lambda>r. np_divide (Fin (exp r)) (Fin ?S)) rs"
    by (simp only: map_map comp_def)
  also have "\<dots> = map (\<lambda>r. Fin (exp r / ?S)) rs"
    by (rule map_cong [OF refl]) (rule d)
  finally show ?thesis .
qed

lemma stabilized_softmax_plain:
  "stabilized_softmax rs = map (\<lambda>r. exp r / (\<Sum>x\<leftarrow>rs. exp x)) rs"
proof -
  let ?M = "Max (set rs)"
  have "(\<Sum>x\<leftarrow>rs. exp (x - ?M)) = (\<Sum>x\<leftarrow>rs. exp x) / exp ?M"
    by (simp add: exp_diff sum_list_const_mult [symmetric] divide_inverse mult.commute
        flip: sum_list_mult_const)
  then show ?thesis
    by (simp add: stabilized_softmax_def exp_diff)
qed

lemma sum_list_plain:
  assumes "rs \<noteq> []"
  shows "(\<Sum>r\<leftarrow>rs. exp r / (\<Sum>x\<leftarrow>rs. exp x)) = (1::real)"
proof -
  obtain r0 where "r0 \<in> set rs" using assms by (cases rs) auto
  have "list_all (\<lambda>e. 0 \<le> e) (map exp rs :: real list)" by (simp add: list_all_iff)
  from member_le_sum_list [OF this, of "exp r0"] \<open>r0 \<in> set rs\<close>
  have "0 < (\<Sum>x\<leftarrow>rs. exp x)" using exp_gt_zero [of r0] by (simp, linarith)
  moreover have "(\<Sum>r\<leftarrow>rs. exp r / (\<Sum>x\<leftarrow>rs. exp x)) = (\<Sum>r\<leftarrow>rs. exp r) / (\<Sum>x\<leftarrow>rs. exp x)"
    by (simp add: divide_inverse sum_list_mult_const)
  ultimately show ?thesis by simp
qed

text \<open>
  C2, as amended. The weights \<open>sample_batch\<close> hands to the weighted choice are the
  plain softmax of the rewards of the positive queue, \<open>exp(r_i) / \<Sum>_j exp(r_j)\<close>,
  computed without subtracting the largest reward. Whenever the sum of the exponentials
  stays below the overflow threshold of a double, these weights are the stabilized ones,
  \<open>exp(r_i - max_r) / \<Sum>_j exp(r_j - max_r)\<close>, and they sum to 1. (Rounding is not
  modelled, so the equalities are exact here.)
\<close>

theorem softmax_weights:
  assumes "items (buffer_pos self) \<noteq> []"
    and "(\<Sum>x\<leftarrow>items (buffer_pos self). exp (reward x)) < overflow_threshold"
  shows "pr_rewards self
           = map (\<lambda>x. Fin (exp (reward x) / (\<Sum>y\<leftarrow>items (buffer_pos self). exp (reward y))))
               (items (buffer_pos self))
     \<and> pr_rewards self
           = map Fin (stabilized_softmax (map reward (items (buffer_pos self))))
     \<and> sum_list (stabilized_softmax (map reward (items (buffer_pos self)))) = 1"
proof -
  let ?rs = "map reward (items (buffer_pos self))"
  have ne: "?rs \<noteq> []" using assms(1) by simp
  have lt: "(\<Sum>x\<leftarrow>?rs. exp x) < overflow_threshold"
    using assms(2) by (simp add: comp_def)
  have "pr_rewards self = softmax (map Fin ?rs)"
    by (simp add: pr_rewards_def comp_def)
  also have "\<dots> = map (\<lambda>r. Fin (exp r / (\<Sum>x\<leftarrow>?rs. exp x))) ?rs"
    by (rule softmax_plain [OF ne lt])
  finally have plain: "pr_rewards self = map (\<lambda>r. Fin (exp r / (\<Sum>x\<leftarrow>?rs. exp x))) ?rs" .
  have st: "stabilized_softmax ?rs = map (\<lambda>r. exp r / (\<Sum>x\<leftarrow>?rs. exp x)) ?rs"
    by (rule stabilized_softmax_plain)
  have one: "sum_list (stabilized_softmax ?rs) = 1"
    using sum_list_plain [OF ne] by (simp only: st)
  have "pr_rewards self = map Fin (stabilized_softmax ?rs)"
    by (simp only: plain st map_map comp_def)
  moreover have "pr_rewards self
           = map (\<lambda>x. Fin (exp (reward x) / (\<Sum>y\<leftarrow>items (buffer_pos self). exp (reward y))))
               (items (buffer_pos self))"
    using plain by (simp add: comp_def)
  ultimately show ?thesis using one by blast
qed

text \<open>
  The rewards \<open>[1.0, 2.0, 3.0]\<close>: the weights are
  \<open>[exp(-2), exp(-1), 1] / (exp(-2) + exp(-1) + 1)\<close> and sum to 1.
\<close>

theorem softmax_weights_witness:
  "items (buffer_pos \<lparr>pbuffer_size = 10,
        buffer_pos = \<lparr>items = [(0::nat, 0::nat, 1, False, 0), (0, 0, 2, False, 0), (0, 0, 3, True, 0)],
                      maxlen = Some 10\<rparr>,
        buffer_neg = \<lparr>items = [], maxlen = Some 10\<rparr>\<rparr>) \<noteq> []
   \<and> exp 1 + exp 2 + exp 3 < overflow_threshold
   \<and> pr_rewards \<lparr>pbuffer_size = 10,
        buffer_pos = \<lparr>items = [(0::nat, 0::nat, 1, False, 0), (0, 0, 2, False, 0), (0, 0, 3, True, 0)],
                      maxlen = Some 10\<rparr>,
        buffer_neg = \<lparr>items = [], maxlen = Some 10\<rparr>\<rparr>
       = [Fin (exp (- 2) / (exp (- 2) + exp (- 1) + 1)),
          Fin (exp (- 1) / (exp (- 2) + exp (- 1) + 1)),
          Fin (1 / (exp (- 2) + exp (- 1) + 1))]
   \<and> exp (- 2) / (exp (- 2) + exp (- 1) + 1) + exp (- 1) / (exp (- 2) + exp (- 1) + 1)
       + 1 / (exp (- 2) + exp (- 1) + 1) = (1::real)"
proof -
  let ?b = "\<lparr>pbuffer_size = 10,
        buffer_pos = \<lparr>items = [(0::nat, 0::nat, 1::real, False, 0::nat), (0, 0, 2, False, 0), (0, 0, 3, True, 0)],
                      maxlen = Some 10\<rparr>,
        buffer_neg = \<lparr>items = [], maxlen = Some 10\<rparr>\<rparr>"
  have e1: "exp (1::real) \<le> 3" by (rule exp_le)
  have "exp (2::real) = exp 1 ^ 2" "exp (3::real) = exp 1 ^ 3"
    using exp_of_nat_mult [of 2 "1::real"] exp_of_nat_mult [of 3 "1::real"] by simp_all
  moreover have "exp (1::real) ^ 2 \<le> 3 ^ 2" "exp (1::real) ^ 3 \<le> 3 ^ 3"
    using e1 by (intro power_mono; simp)+
  ultimately have "exp (1::real) + exp 2 + exp 3 \<le> 39"
    using e1 by simp
  moreover have "(39::real) < overflow_threshold"
    by (simp add: overflow_threshold_def)
  ultimately have lt: "exp (1::real) + exp 2 + exp 3 < overflow_threshold" by linarith
  have ne: "items (buffer_pos ?b) \<noteq> []" by simp
  have lt': "(\<Sum>x\<leftarrow>items (buffer_pos ?b). exp (reward x)) < overflow_threshold"
    using lt by (simp add: reward_def)
  have m: "Max (set [1, 2, 3 :: real]) = 3" by simp
  have st: "stabilized_softmax (map reward (items (buffer_pos ?b)))
       = [exp (- 2) / (exp (- 2) + exp (- 1) + 1),
          exp (- 1) / (exp (- 2) + exp (- 1) + 1),
          1 / (exp (- 2) + exp (- 1) + 1)]"
    by (simp add: stabilized_softmax_def reward_def add.assoc)
  from softmax_weights [OF ne lt'] have
    "pr_rewards ?b = map Fin (stabilized_softmax (map reward (items (buffer_pos ?b))))"
    "sum_list (stabilized_softmax (map reward (items (buffer_pos ?b)))) = 1"
    by blast+
  then have "pr_rewards ?b = [Fin (exp (- 2) / (exp (- 2) + exp (- 1) + 1)),
          Fin (exp (- 1) / (exp (- 2) + exp (- 1) + 1)),
          Fin (1 / (exp (- 2) + exp (- 1) + 1))]"
    and "exp (- 2) / (exp (- 2) + exp (- 1) + 1) + exp (- 1) / (exp (- 2) + exp (- 1) + 1)
       + 1 / (exp (- 2) + exp (- 1) + 1) = (1::real)"
    unfolding st by (simp_all add: add.assoc)
  with ne lt show ?thesis by blast
qed

text \<open>
  C2 as stated fails: the code does not subtract the largest reward. With the single
  positive reward 2000 the exponential overflows to infinity, the sum is infinite and the
  weight is \<open>inf / inf\<close>, NaN, where the stabilized weight is \<open>exp(0) / exp(0) = 1\<close>.
\<close>

theorem softmax_overflow_counterexample:
  "pr_rewards \<lparr>pbuffer_size = 10,
               buffer_pos = \<lparr>items = [(0::nat, 0::nat, 2000, False, 0)], maxlen = Some 10\<rparr>,
               buffer_neg = \<lparr>items = [], maxlen = Some 10\<rparr>\<rparr> = [NaN]
   \<and> stabilized_softmax [2000] = [1]"
proof -
  have "fl_round (exp 2000) = PInf"
    using exp_2000_overflows by (simp add: fl_round_def)
  then show ?thesis
    by (simp add: pr_rewards_def softmax_def reward_def np_sum_def stabilized_softmax_def)
qed

subsection \<open>Exceptions\<close>

text \<open>
  C4. The claim: no operation of the three classes raises; in particular, on a buffer
  constructed with capacity 0, \<open>add\<close> still succeeds. On the code, \<open>add\<close> on a
  \<open>ReplayBuffer\<close> of capacity 0 takes the branch that calls \<open>popleft\<close> on the empty
  deque and raises IndexError (a batch request on that buffer does return five empty
  columns). \<open>PrioritizedReplayBuffer\<close> with capacity 0 accepts the same call: its
  deques have \<open>maxlen = 0\<close> and stay empty.
\<close>

theorem ReplayBuffer_add_capacity_zero_raises:
  "ReplayBuffer_add (fst (ReplayBuffer_init mt 0 123 w)) e = Inl IndexError
   \<and> fst (ReplayBuffer_sample_batch (fst (ReplayBuffer_init mt 0 123 w)) w' 5) = Inr ([], [], [], [], [])
   \<and> (case fst (PrioritizedReplayBuffer_init mt 0 123 w) of
        Inl err \<Rightarrow> False
      | Inr b \<Rightarrow> items (buffer_pos (PrioritizedReplayBuffer_add b e)) = []
               \<and> items (buffer_neg (PrioritizedReplayBuffer_add b e)) = [])"
  by (simp add: ReplayBuffer_add_def ReplayBuffer_init_def deque_popleft_def
      PrioritizedReplayBuffer_init_def deque_new_def PrioritizedReplayBuffer_add_def
      deque_append_def ReplayBuffer_sample_batch_def random_sample_def columns_def)

text \<open>
  C5. The claim: \<open>last_n_batch(n)\<close> returns the \<open>min(n, size())\<close> most recent
  transitions in insertion order. On the code the method returns (the whole deque, in
  insertion order) only when \<open>size() < n\<close>; for every \<open>n \<le> size()\<close> it slices
  the deque and raises TypeError. After three additions, \<open>last_n_batch(2)\<close> and
  \<open>last_n_batch(3)\<close> raise and \<open>last_n_batch(4)\<close> returns the three transitions.
\<close>

theorem ReplayBuffer_last_n_batch_raises:
  "fst (ReplayBuffer_last_n_batch self n) =
     (if count self < n then Inr (columns (items (buffer self))) else Inl TypeError)
   \<and> (case ReplayBuffer_add (fst (ReplayBuffer_init mt 10 123 w)) e1 of
        Inl err \<Rightarrow> False
      | Inr b1 \<Rightarrow> (case ReplayBuffer_add b1 e2 of
          Inl err \<Rightarrow> False
        | Inr b2 \<Rightarrow> (case ReplayBuffer_add b2 e3 of
            Inl err \<Rightarrow> False
          | Inr b3 \<Rightarrow> ReplayBuffer_size b3 = 3
                     \<and> fst (ReplayBuffer_last_n_batch b3 2) = Inl TypeError
                     \<and> fst (ReplayBuffer_last_n_batch b3 3) = Inl TypeError
                     \<and> fst (ReplayBuffer_last_n_batch b3 4) = Inr (columns [e1, e2, e3]))))"
  by (simp add: ReplayBuffer_last_n_batch_def ReplayBuffer_add_def ReplayBuffer_init_def
      ReplayBuffer_size_def deque_append_def)

text \<open>
  C6. The claim: for every buffer of any of the three classes \<open>clear()\<close> succeeds and
  leaves every queue empty and \<open>size()\<close> at 0, in particular for the UniformBuffer.
  On the code, \<open>ReplayBuffer.clear\<close> raises AttributeError on every buffer and changes
  nothing: after two additions the size is still 2. The \<open>clear\<close> of the two other
  classes empties both queues and keeps the capacity.
\<close>

theorem ReplayBuffer_clear_raises:
  "fst (ReplayBuffer_clear self) = Inl AttributeError
   \<and> snd (ReplayBuffer_clear self) = self
   \<and> PrioritizedReplayBuffer_size (PrioritizedReplayBuffer_clear pb) = 0
   \<and> pbuffer_size (PrioritizedReplayBuffer_clear pb) = pbuffer_size pb
   \<and> PrioritizedReplayBuffer2_size (PrioritizedReplayBuffer2_clear pb) = 0
   \<and> pbuffer_size (PrioritizedReplayBuffer2_clear pb) = pbuffer_size pb
   \<and> (case ReplayBuffer_add (fst (ReplayBuffer_init mt 10 123 w)) e1 of
        Inl err \<Rightarrow> False
      | Inr b1 \<Rightarrow> (case ReplayBuffer_add b1 e2 of
          Inl err \<Rightarrow> False
        | Inr b2 \<Rightarrow> fst (ReplayBuffer_clear b2) = Inl AttributeError
                    \<and> ReplayBuffer_size (snd (ReplayBuffer_clear b2)) = 2))"
  by (simp add: ReplayBuffer_clear_def ReplayBuffer_add_def ReplayBuffer_init_def
      ReplayBuffer_size_def deque_append_def PrioritizedReplayBuffer_clear_def
      PrioritizedReplayBuffer2_clear_def PrioritizedReplayBuffer_size_def
      PrioritizedReplayBuffer2_size_def deque_clear_def len_def)

subsection \<open>Seeding\<close>

text \<open>
  C3. The claim: two buffers constructed with the same seed and given the same calls
  return the same batches, for all three classes. On the code, the constructor of
  \<open>PrioritizedReplayBuffer2\<close> seeds the generator of the module \<open>random\<close> and
  leaves numpy's generator as it finds it, and \<open>sample_batch\<close> draws from numpy's
  generator only. With seed 123, capacity 10, the same two additions and the call
  \<open>sample_batch(1, 0.25)\<close>, the batch is the second transition when numpy's generator
  next yields an even number and the first when it yields an odd one.
\<close>

theorem PrioritizedReplayBuffer2_seed_ignored:
  "np_rng (snd (PrioritizedReplayBuffer2_init mt capacity seed w
      :: (error + (nat, nat) PrioritizedReplayBuffer2) \<times> world)) = np_rng w
   \<and> (case PrioritizedReplayBuffer2_init mt 10 123 \<lparr>py_rng = g, np_rng = (\<lambda>i. 0)\<rparr> of
        (Inl err, w1) \<Rightarrow> False
      | (Inr b0, w1) \<Rightarrow>
          fst (PrioritizedReplayBuffer2_sample_batch permutation_choice wchoice
                 (PrioritizedReplayBuffer2_add
                    (PrioritizedReplayBuffer2_add b0 (1::nat, 0::nat, 0, False, 2))
                    (2, 1, -1, True, 3))
                 w1 1 0.25)
            = Inr ([2], [1], [-1], [True], [3]))
   \<and> (case PrioritizedReplayBuffer2_init mt 10 123 \<lparr>py_rng = g, np_rng = (\<lambda>i. 1)\<rparr> of
        (Inl err, w2) \<Rightarrow> False
      | (Inr b0, w2) \<Rightarrow>
          fst (PrioritizedReplayBuffer2_sample_batch permutation_choice wchoice
                 (PrioritizedReplayBuffer2_add
                    (PrioritizedReplayBuffer2_add b0 (1::nat, 0::nat, 0, False, 2))
                    (2, 1, -1, True, 3))
                 w2 1 0.25)
            = Inr ([1], [0], [0], [False], [2]))"
  by (simp add: PrioritizedReplayBuffer2_init_def deque_new_def
      PrioritizedReplayBuffer2_sample_batch_def PrioritizedReplayBuffer2_add_def
      reward_def deque_append_def pos_sample_size_def neg_sample_size_def py_int_def
      len_def draw_pos_def draw_neg_def permutation_choice_def take_indices_def
      columns_def numeral_2_eq_2 split: sum.splits)

subsection \<open>Sampling leaves the buffer as it is\<close>

text \<open>
  C10. For each of the three classes, every buffer, every state of the generators,
  every \<open>batch_size\<close> and \<open>p_ratio\<close> (and, for \<open>PrioritizedReplayBuffer2\<close>, whatever
  numpy's choice routine answers): the buffer after \<open>sample_batch\<close> is the buffer
  before it, whether the call returns a batch or raises; so the queues, their order and
  \<open>size()\<close> are the same.
\<close>

theorem sample_batch_leaves_buffer:
  "fst (snd (ReplayBuffer_sample_batch b w n)) = b
   \<and> fst (snd (PrioritizedReplayBuffer_sample_batch pb w n p)) = pb
   \<and> fst (snd (PrioritizedReplayBuffer2_sample_batch uchoice wchoice pb w n p)) = pb"
  by (simp add: ReplayBuffer_sample_batch_def PrioritizedReplayBuffer_sample_batch_def
      PrioritizedReplayBuffer2_sample_batch_def Let_def split: sum.splits prod.splits)

end
